theory Spec2Isabelle
  imports Main "HOL-Library.Sublist" "HOL-Library.Char_ord" "HOL-Library.List_Lexorder"
begin

section \<open>Data model (src/interfaces.ts and the session declaration of src/index.ts)\<close>

text \<open>
  The JavaScript numbers of the data (ages, founding years): an integer, or the
  \<open>NaN\<close> that \<open>parseInt\<close> returns for text without digits. Doubles round integers
  beyond \<open>2 ^ 53\<close>; the model keeps the exact integer.
\<close>

datatype number = Num int | NaN

datatype role = ADMIN | USER

text \<open>
  A JavaScript string is a sequence of UTF-16 code units. The name of a character and
  the search string pass through \<open>toLowerCase\<close>, which treats units beyond the 8-bit
  range in their own way, so they are lists of code units (\<open>jsstring\<close>). The other
  strings of the model are 8-bit \<open>string\<close>s, whose characters are the code units below
  256; \<open>js\<close> reads such a string as a list of code units.
\<close>

type_synonym jsstring = "nat list"

definition js :: "string \<Rightarrow> jsstring" where
  "js s = map of_char s"

text \<open>
  The field \<open>_id\<close> of a stored document is written \<open>user_oid\<close> and \<open>char_oid\<close>: the
  hexadecimal text of the storage identifier. The fields \<open>id\<close> and \<open>name\<close> of the embedded
  unit are \<open>unit_id\<close> and \<open>unit_name\<close>, the field \<open>id\<close> of a character is \<open>char_id\<close>.
\<close>

record embedded_unit =
  unit_id :: string
  unit_name :: string
  emblemUrl :: string
  motto :: string
  isElite :: bool
  foundedYear :: number

record character =
  char_oid :: string
  char_id :: string
  name :: jsstring
  age :: number
  description :: string
  isActive :: bool
  rank :: string
  birthDate :: string
  imageUrl :: string
  weapons :: "string list"
  unit :: embedded_unit

record user =
  user_oid :: string
  username :: string
  password :: string
  role :: role

text \<open>
  A document of the untyped collection \<open>emblems\<close>: the \<open>id\<close> it is looked up by and
  the rest of the document.
\<close>

record emblem =
  emblem_id :: string
  emblem_doc :: "(string \<times> string) list"

record session_user =
  su_id :: string
  su_username :: string
  su_role :: role

text \<open>\<open>req.session\<close>: the field \<open>user\<close> is absent until a login stores it.\<close>

record session =
  session_user :: "session_user option"

text \<open>The database: the three collections, each in its natural order.\<close>

record db =
  users :: "user list"
  characters :: "character list"
  emblems :: "emblem list"

text \<open>
  What the libraries supply: \<open>bcrypt.hash(p, 10)\<close> (the library draws the salt),
  \<open>bcrypt.compare(p, h)\<close>, and the identifier the driver gives a new document, here a
  function of the number of documents already stored.
\<close>

record crypto =
  bcrypt_hash :: "string \<Rightarrow> string"
  bcrypt_compare :: "string \<Rightarrow> string \<Rightarrow> bool"
  new_oid :: "nat \<Rightarrow> string"

section \<open>Responses\<close>

datatype unit_data = Emblem emblem | Embedded embedded_unit

datatype view =
    LoginView "string option"
  | RegisterView "string option"
  | ErrorView string
  | IndexView "character list" jsstring string int
  | UnitDetailView unit_data "character list"

text \<open>
  \<open>res.redirect\<close>, \<open>res.status(n).render\<close> (status 200 when none is set) and
  \<open>res.status(n).send\<close>. \<open>Unhandled\<close> is a handler without \<open>try\<close> whose storage call
  threw: it sends nothing.
\<close>

datatype response =
    Redirect string
  | Render nat view
  | Send nat string
  | Unhandled

datatype guard = Next | Respond response

section \<open>Storage operations\<close>

text \<open>
  A handler that reads or writes the store takes a flag \<open>up\<close>: whether the store answers
  during the request. When it does not, every storage call of the handler throws.
\<close>

fun findOne :: "('a \<Rightarrow> bool) \<Rightarrow> 'a list \<Rightarrow> 'a option" where
  "findOne p [] = None"
| "findOne p (x # xs) = (if p x then Some x else findOne p xs)"

text \<open>\<open>updateOne\<close> changes the first document that matches and no other.\<close>

fun updateOne :: "('a \<Rightarrow> bool) \<Rightarrow> ('a \<Rightarrow> 'a) \<Rightarrow> 'a list \<Rightarrow> 'a list" where
  "updateOne p f [] = []"
| "updateOne p f (x # xs) = (if p x then f x # xs else x # updateOne p f xs)"

section \<open>Session gate\<close>

definition requireLogin :: "session \<Rightarrow> guard" where
  "requireLogin s =
     (case session_user s of
        Some u \<Rightarrow> Next
      | None \<Rightarrow> Respond (Redirect ''/login''))"

definition requireAdmin :: "session \<Rightarrow> guard" where
  "requireAdmin s =
     (case session_user s of
        Some u \<Rightarrow>
          if su_role u = ADMIN then Next
          else Respond (Render 403 (ErrorView ''Geen toegang. Alleen voor admins.''))
      | None \<Rightarrow> Respond (Render 403 (ErrorView ''Geen toegang. Alleen voor admins.'')))"

text \<open>A route runs its guards in order; the first that does not pass answers the request.\<close>

fun guarded :: "(session \<Rightarrow> guard) list \<Rightarrow> session \<Rightarrow> 'a \<Rightarrow> (response \<Rightarrow> 'a) \<Rightarrow> 'a" where
  "guarded [] s h r = h"
| "guarded (g # gs) s h r =
     (case g s of Next \<Rightarrow> guarded gs s h r | Respond x \<Rightarrow> r x)"

section \<open>Authentication routes\<close>

definition get_login :: "session \<Rightarrow> response" where
  "get_login s =
     (case session_user s of
        Some u \<Rightarrow> Redirect ''/characters''
      | None \<Rightarrow> Render 200 (LoginView None))"

definition get_register :: "session \<Rightarrow> response" where
  "get_register s =
     (case session_user s of
        Some u \<Rightarrow> Redirect ''/characters''
      | None \<Rightarrow> Render 200 (RegisterView None))"

text \<open>
  \<open>POST /login\<close> has no \<open>try\<close>: with the store down the lookup throws and nothing is sent.
  The result is the session after the request and the response.
\<close>

definition post_login ::
  "crypto \<Rightarrow> bool \<Rightarrow> db \<Rightarrow> session \<Rightarrow> string \<Rightarrow> string \<Rightarrow> session \<times> response" where
  "post_login k up d s uname pw =
     (if \<not> up then (s, Unhandled)
      else case findOne (\<lambda>u. username u = uname) (users d) of
        None \<Rightarrow> (s, Render 200 (LoginView (Some ''Gebruikersnaam of wachtwoord onjuist.'')))
      | Some u \<Rightarrow>
          if bcrypt_compare k pw (password u)
          then (s\<lparr>session_user := Some \<lparr>su_id = user_oid u, su_username = username u, su_role = role u\<rparr>\<rparr>,
                Redirect ''/characters'')
          else (s, Render 200 (LoginView (Some ''Gebruikersnaam of wachtwoord onjuist.''))))"

definition post_register ::
  "crypto \<Rightarrow> bool \<Rightarrow> db \<Rightarrow> string \<Rightarrow> string \<Rightarrow> db \<times> response" where
  "post_register k up d uname pw =
     (if \<not> up then (d, Unhandled)
      else case findOne (\<lambda>u. username u = uname) (users d) of
        Some existing \<Rightarrow> (d, Render 200 (RegisterView (Some ''Gebruikersnaam bestaat al.'')))
      | None \<Rightarrow>
          (d\<lparr>users := users d @
                [\<lparr>user_oid = new_oid k (length (users d)), username = uname,
                  password = bcrypt_hash k pw, role = USER\<rparr>]\<rparr>,
           Redirect ''/login''))"

section \<open>Roster query engine (\<open>GET /characters\<close>)\<close>

text \<open>
  \<open>String.prototype.toLowerCase\<close>, on the Basic Latin and Latin-1 letters and the Greek
  capitals: a capital becomes the small letter 32 units above it, and a capital sigma
  becomes the final small sigma when it follows a cased letter and no cased letter
  follows it. Every other unit is left as it is: the engine also lowers the capitals
  of the other scripts and looks past marks around a sigma, which the model leaves out.
\<close>

definition is_capital :: "nat \<Rightarrow> bool" where
  "is_capital u =
     ((0x41 \<le> u \<and> u \<le> 0x5A)
      \<or> (0xC0 \<le> u \<and> u \<le> 0xDE \<and> u \<noteq> 0xD7)
      \<or> (0x391 \<le> u \<and> u \<le> 0x3A9 \<and> u \<noteq> 0x3A2))"

definition is_small :: "nat \<Rightarrow> bool" where
  "is_small u =
     ((0x61 \<le> u \<and> u \<le> 0x7A)
      \<or> u = 0xAA \<or> u = 0xB5 \<or> u = 0xBA
      \<or> (0xDF \<le> u \<and> u \<le> 0xFF \<and> u \<noteq> 0xF7)
      \<or> (0x3B1 \<le> u \<and> u \<le> 0x3C9))"

definition is_cased :: "nat \<Rightarrow> bool" where
  "is_cased u = (is_capital u \<or> is_small u)"

definition lower_unit :: "nat \<Rightarrow> nat" where
  "lower_unit u = (if is_capital u then u + 32 else u)"

fun lower_from :: "bool \<Rightarrow> jsstring \<Rightarrow> jsstring" where
  "lower_from after_cased [] = []"
| "lower_from after_cased (u # us) =
     (if u = 0x3A3 \<and> after_cased \<and> \<not> (case us of [] \<Rightarrow> False | v # vs \<Rightarrow> is_cased v)
      then 0x3C2
      else lower_unit u) # lower_from (is_cased u) us"

definition toLowerCase :: "jsstring \<Rightarrow> jsstring" where
  "toLowerCase s = lower_from False s"

text \<open>\<open>s.includes(t)\<close>, written \<open>includes_str s t\<close>: \<open>t\<close> starts at some position of \<open>s\<close>.\<close>

fun includes_str :: "'a list \<Rightarrow> 'a list \<Rightarrow> bool" where
  "includes_str [] t = (t = [])"
| "includes_str (x # xs) t = (prefix t (x # xs) \<or> includes_str xs t)"

text \<open>The query of the listing request: each parameter is absent or a string.\<close>

record query =
  q_search :: "jsstring option"
  q_sort :: "string option"
  q_order :: "string option"

text \<open>\<open>x || d\<close> for a string \<open>x\<close> that may be absent: the empty string is falsy.\<close>

definition or_default :: "'a list option \<Rightarrow> 'a list \<Rightarrow> 'a list" where
  "or_default x d = (case x of None \<Rightarrow> d | Some s \<Rightarrow> if s = [] then d else s)"

definition filter_step :: "jsstring \<Rightarrow> character list \<Rightarrow> character list" where
  "filter_step search cs =
     (if search \<noteq> []
      then filter (\<lambda>c. includes_str (toLowerCase (name c)) (toLowerCase search)) cs
      else cs)"

text \<open>
  The values that \<open>a[sortField]\<close> can be for a character, and the primitive that \<open><\<close>
  turns each into: an identifier compares by its hexadecimal text, an array by its
  elements joined with commas, any other object by the text \<open>[object Object]\<close>.
  Strings compare unit by unit.
  A key that is no field of the interface gives \<open>undefined\<close>, or an inherited member that
  is the same object for every character; both compare as equal.
\<close>

datatype jsval =
    JUndefined
  | JString jsstring
  | JNumber number
  | JBoolean bool
  | JObjectId string
  | JArray "string list"
  | JObject

datatype prim = PUndefined | PString jsstring | PNumber number | PBoolean bool

fun join :: "string list \<Rightarrow> string" where
  "join [] = []"
| "join [w] = w"
| "join (w # ws) = w @ '','' @ join ws"

fun to_primitive :: "jsval \<Rightarrow> prim" where
  "to_primitive JUndefined = PUndefined"
| "to_primitive (JString s) = PString s"
| "to_primitive (JNumber n) = PNumber n"
| "to_primitive (JBoolean b) = PBoolean b"
| "to_primitive (JObjectId h) = PString (js h)"
| "to_primitive (JArray ws) = PString (js (join ws))"
| "to_primitive JObject = PString (js ''[object Object]'')"

fun to_number :: "prim \<Rightarrow> number" where
  "to_number PUndefined = NaN"
| "to_number (PNumber n) = n"
| "to_number (PBoolean b) = Num (if b then 1 else 0)"
| "to_number (PString s) = NaN"

fun num_lt :: "number \<Rightarrow> number \<Rightarrow> bool" where
  "num_lt (Num a) (Num b) = (a < b)"
| "num_lt _ _ = False"

text \<open>
  \<open>a < b\<close>: two strings compare as strings, anything else as numbers, and a
  comparison with \<open>NaN\<close> is false. A string against a number would convert the string;
  the sort never compares two values of different kinds (both are the same field of
  two characters), so \<open>to_number\<close> leaves that conversion out.
\<close>

fun js_lt :: "jsval \<Rightarrow> jsval \<Rightarrow> bool" where
  "js_lt a b =
     (case (to_primitive a, to_primitive b) of
        (PString x, PString y) \<Rightarrow> x < y
      | (p, q) \<Rightarrow> num_lt (to_number p) (to_number q))"

definition js_gt :: "jsval \<Rightarrow> jsval \<Rightarrow> bool" where
  "js_gt a b = js_lt b a"

definition get_field :: "string \<Rightarrow> character \<Rightarrow> jsval" where
  "get_field f c =
     (if f = ''_id'' then JObjectId (char_oid c)
      else if f = ''id'' then JString (js (char_id c))
      else if f = ''name'' then JString (name c)
      else if f = ''age'' then JNumber (age c)
      else if f = ''description'' then JString (js (description c))
      else if f = ''isActive'' then JBoolean (isActive c)
      else if f = ''rank'' then JString (js (rank c))
      else if f = ''birthDate'' then JString (js (birthDate c))
      else if f = ''imageUrl'' then JString (js (imageUrl c))
      else if f = ''weapons'' then JArray (weapons c)
      else if f = ''unit'' then JObject
      else JUndefined)"

text \<open>The value the comparison function compares for one character.\<close>

definition sort_val :: "string \<Rightarrow> character \<Rightarrow> jsval" where
  "sort_val sortField c =
     (if sortField = ''unit'' then JString (js (unit_name (unit c))) else get_field sortField c)"

definition compare_chars :: "string \<Rightarrow> int \<Rightarrow> character \<Rightarrow> character \<Rightarrow> int" where
  "compare_chars sortField sortOrder a b =
     (let valA = sort_val sortField a; valB = sort_val sortField b
      in if js_lt valA valB then -1 * sortOrder
         else if js_gt valA valB then 1 * sortOrder
         else 0)"

text \<open>
  \<open>Array.prototype.sort\<close> with a comparison function, as the engine of Node.js (V8)
  runs it on an array of fewer than 64 elements: \<open>countAndMakeRun\<close> takes the
  longest run at the front that does not descend, or that strictly descends and is then
  reversed, and \<open>binaryInsertionSort\<close> puts each remaining element into the sorted
  front at the place a binary search finds. On longer arrays the engine sorts runs
  in this way and merges them; with a consistent comparison function the result is
  the same, the one stable sorted order. The comparison function of the listing is
  not consistent when an age is \<open>NaN\<close>, which compares as equal to every age.
\<close>

text \<open>The elements after \<open>prev\<close> that continue the run: \<open>R cur prev\<close> holds step by step.\<close>

fun run_while :: "('a \<Rightarrow> 'a \<Rightarrow> bool) \<Rightarrow> 'a \<Rightarrow> 'a list \<Rightarrow> 'a list \<times> 'a list" where
  "run_while R prev [] = ([], [])"
| "run_while R prev (x # xs) =
     (if R x prev then (case run_while R x xs of (r, rest) \<Rightarrow> (x # r, rest))
      else ([], x # xs))"

fun countAndMakeRun :: "('a \<Rightarrow> 'a \<Rightarrow> int) \<Rightarrow> 'a list \<Rightarrow> 'a list \<times> 'a list" where
  "countAndMakeRun cmp (a # b # xs) =
     (if cmp b a < 0
      then (case run_while (\<lambda>cur prev. cmp cur prev < 0) b xs of
              (r, rest) \<Rightarrow> (rev (a # b # r), rest))
      else (case run_while (\<lambda>cur prev. \<not> cmp cur prev < 0) b xs of
              (r, rest) \<Rightarrow> (a # b # r, rest)))"
| "countAndMakeRun cmp xs = (xs, [])"

function binary_search :: "('a \<Rightarrow> 'a \<Rightarrow> int) \<Rightarrow> 'a \<Rightarrow> 'a list \<Rightarrow> nat \<Rightarrow> nat \<Rightarrow> nat" where
  "binary_search cmp pivot ps left right =
     (if left < right
      then let mid = left + (right - left) div 2
           in if cmp pivot (ps ! mid) < 0
              then binary_search cmp pivot ps left mid
              else binary_search cmp pivot ps (mid + 1) right
      else left)"
  by pat_completeness auto
termination
  by (relation "measure (\<lambda>(cmp, pivot, ps, left, right). right - left)") auto

declare binary_search.simps [simp del]

definition binary_insert :: "('a \<Rightarrow> 'a \<Rightarrow> int) \<Rightarrow> 'a list \<Rightarrow> 'a \<Rightarrow> 'a list" where
  "binary_insert cmp ps pivot =
     (let left = binary_search cmp pivot ps 0 (length ps)
      in take left ps @ pivot # drop left ps)"

definition binaryInsertionSort :: "('a \<Rightarrow> 'a \<Rightarrow> int) \<Rightarrow> 'a list \<Rightarrow> 'a list \<Rightarrow> 'a list" where
  "binaryInsertionSort cmp run rest = foldl (binary_insert cmp) run rest"

definition array_sort :: "('a \<Rightarrow> 'a \<Rightarrow> int) \<Rightarrow> 'a list \<Rightarrow> 'a list" where
  "array_sort cmp xs =
     (case countAndMakeRun cmp xs of (run, rest) \<Rightarrow> binaryInsertionSort cmp run rest)"

definition sort_step :: "string \<Rightarrow> int \<Rightarrow> character list \<Rightarrow> character list" where
  "sort_step sortField sortOrder cs = array_sort (compare_chars sortField sortOrder) cs"

definition characters_handler :: "bool \<Rightarrow> db \<Rightarrow> query \<Rightarrow> response" where
  "characters_handler up d q =
     (if \<not> up then Send 500 ''Database fout''
      else
        let search = or_default (q_search q) [];
            cs = filter_step search (characters d);
            sortField = or_default (q_sort q) ''name'';
            sortOrder = (if q_order q = Some ''desc'' then -1 else 1)
        in Render 200 (IndexView (sort_step sortField sortOrder cs) search sortField sortOrder))"

definition get_characters :: "session \<Rightarrow> bool \<Rightarrow> db \<Rightarrow> query \<Rightarrow> response" where
  "get_characters s up d q = guarded [requireLogin] s (characters_handler up d q) (\<lambda>r. r)"

section \<open>Editing a character (\<open>POST /characters/:id/edit\<close>)\<close>

text \<open>
  \<open>parseInt\<close> of a form field: leading white space (of the 8-bit range, the no-break
  space included) is skipped, a sign is read, the
  prefix \<open>0x\<close> or \<open>0X\<close> selects radix 16 (radix 10 otherwise), and the longest run of
  digits of the radix is the value; without a digit the result is \<open>NaN\<close>. An absent
  field is \<open>undefined\<close>, whose text has no digit.
\<close>

definition is_white :: "char \<Rightarrow> bool" where
  "is_white c = (c \<in> {CHR 0x09, CHR 0x0A, CHR 0x0B, CHR 0x0C, CHR 0x0D, CHR '' '', CHR 0xA0})"

definition digit_val :: "char \<Rightarrow> nat option" where
  "digit_val c =
     (if CHR ''0'' \<le> c \<and> c \<le> CHR ''9'' then Some (of_char c - 48)
      else if CHR ''a'' \<le> c \<and> c \<le> CHR ''z'' then Some (of_char c - 87)
      else if CHR ''A'' \<le> c \<and> c \<le> CHR ''Z'' then Some (of_char c - 55)
      else None)"

definition is_digit :: "nat \<Rightarrow> char \<Rightarrow> bool" where
  "is_digit R c = (case digit_val c of None \<Rightarrow> False | Some v \<Rightarrow> v < R)"

definition digits_value :: "nat \<Rightarrow> string \<Rightarrow> nat" where
  "digits_value R Z = foldl (\<lambda>a c. a * R + (case digit_val c of None \<Rightarrow> 0 | Some v \<Rightarrow> v)) 0 Z"

definition parseInt_str :: "string \<Rightarrow> number" where
  "parseInt_str s =
     (let S = dropWhile is_white s;
          sign = (if take 1 S = ''-'' then -1 else 1 :: int);
          S = (if take 1 S = ''+'' \<or> take 1 S = ''-'' then drop 1 S else S);
          R = (if take 2 S = ''0x'' \<or> take 2 S = ''0X'' then 16 else 10);
          S = (if take 2 S = ''0x'' \<or> take 2 S = ''0X'' then drop 2 S else S);
          Z = takeWhile (is_digit R) S
      in if Z = [] then NaN else Num (sign * int (digits_value R Z)))"

definition parseInt :: "string option \<Rightarrow> number" where
  "parseInt v = (case v of None \<Rightarrow> NaN | Some s \<Rightarrow> parseInt_str s)"

text \<open>
  The form of the edit request. \<open>name\<close> and \<open>description\<close> are stored as they come and
  are strings, as the fields they are stored in; \<open>age\<close> and \<open>isActive\<close> pass through
  \<open>parseInt\<close> and a comparison with \<open>"true"\<close> and may be absent.
\<close>

record edit_body =
  b_name :: jsstring
  b_age :: "string option"
  b_description :: string
  b_isActive :: "string option"

definition set_fields :: "edit_body \<Rightarrow> character \<Rightarrow> character" where
  "set_fields b c =
     c\<lparr>name := b_name b,
       age := parseInt (b_age b),
       description := b_description b,
       isActive := (b_isActive b = Some ''true'')\<rparr>"

definition edit_handler :: "bool \<Rightarrow> db \<Rightarrow> string \<Rightarrow> edit_body \<Rightarrow> db \<times> response" where
  "edit_handler up d cid b =
     (if \<not> up then (d, Send 500 ''Error bij updaten'')
      else (d\<lparr>characters := updateOne (\<lambda>c. char_id c = cid) (set_fields b) (characters d)\<rparr>,
            Redirect (''/characters/'' @ cid)))"

definition post_characters_edit ::
  "session \<Rightarrow> bool \<Rightarrow> db \<Rightarrow> string \<Rightarrow> edit_body \<Rightarrow> db \<times> response" where
  "post_characters_edit s up d cid b =
     guarded [requireLogin, requireAdmin] s (edit_handler up d cid b) (\<lambda>r. (d, r))"

section \<open>Unit detail (\<open>GET /units/:id\<close>)\<close>

definition unit_detail_handler :: "bool \<Rightarrow> db \<Rightarrow> string \<Rightarrow> response" where
  "unit_detail_handler up d unitId =
     (if \<not> up then Send 500 ''Error bij ophalen unit''
      else
        let members = filter (\<lambda>c. unit_id (unit c) = unitId) (characters d);
            unitInfo = findOne (\<lambda>e. emblem_id e = unitId) (emblems d)
        in case unitInfo of
             Some e \<Rightarrow> Render 200 (UnitDetailView (Emblem e) members)
           | None \<Rightarrow>
               (case members of
                  m # ms \<Rightarrow> Render 200 (UnitDetailView (Embedded (unit m)) members)
                | [] \<Rightarrow> Send 404 (''Unit '' @ unitId @ '' niet gevonden.'')))"

definition get_unit :: "session \<Rightarrow> bool \<Rightarrow> db \<Rightarrow> string \<Rightarrow> response" where
  "get_unit s up d unitId = guarded [requireLogin] s (unit_detail_handler up d unitId) (\<lambda>r. r)"

section \<open>Bootstrap seeder (\<open>connectAndSeedDatabase\<close>)\<close>

text \<open>
  The calls of the seeder that can throw. The environment of one run says which of
  them throw, what the external resource holds (the documents with the identifiers the
  driver gives them), and how many documents a failing \<open>insertMany\<close> has stored before
  it throws. Any throw ends the run in the \<open>catch\<close>, which only logs.
\<close>

datatype seed_op =
    Connect | FindAdmin | HashAdmin | InsertAdmin
  | FindUser | HashUser | InsertUser
  | CountChars | Fetch | InsertMany

record seed_env =
  fails :: "seed_op \<Rightarrow> bool"
  github_data :: "character list"
  written :: nat

text \<open>Each block gives \<open>Inr\<close> the state to go on with, or \<open>Inl\<close> the state at the throw.\<close>

definition seed_admin :: "crypto \<Rightarrow> seed_env \<Rightarrow> db \<Rightarrow> db + db" where
  "seed_admin k e d =
     (if fails e FindAdmin then Inl d
      else case findOne (\<lambda>u. username u = ''admin'') (users d) of
        Some adminExists \<Rightarrow> Inr d
      | None \<Rightarrow>
          if fails e HashAdmin \<or> fails e InsertAdmin then Inl d
          else Inr (d\<lparr>users := users d @
                  [\<lparr>user_oid = new_oid k (length (users d)), username = ''admin'',
                    password = bcrypt_hash k ''admin123'', role = ADMIN\<rparr>]\<rparr>))"

definition seed_user :: "crypto \<Rightarrow> seed_env \<Rightarrow> db \<Rightarrow> db + db" where
  "seed_user k e d =
     (if fails e FindUser then Inl d
      else case findOne (\<lambda>u. username u = ''user'') (users d) of
        Some userExists \<Rightarrow> Inr d
      | None \<Rightarrow>
          if fails e HashUser \<or> fails e InsertUser then Inl d
          else Inr (d\<lparr>users := users d @
                  [\<lparr>user_oid = new_oid k (length (users d)), username = ''user'',
                    password = bcrypt_hash k ''user123'', role = USER\<rparr>]\<rparr>))"

text \<open>The driver rejects an empty batch: \<open>insertMany\<close> of no document throws and stores nothing.\<close>

definition seed_characters :: "seed_env \<Rightarrow> db \<Rightarrow> db + db" where
  "seed_characters e d =
     (if fails e CountChars then Inl d
      else if length (characters d) = 0 then
        if fails e Fetch then Inl d
        else if github_data e = [] then Inl d
        else if fails e InsertMany
          then Inl (d\<lparr>characters := characters d @ take (written e) (github_data e)\<rparr>)
        else Inr (d\<lparr>characters := characters d @ github_data e\<rparr>)
      else Inr d)"

text \<open>The \<open>try\<close> block: \<open>Inr\<close> when it runs to its end, \<open>Inl\<close> when a call throws.\<close>

definition seed_try :: "crypto \<Rightarrow> seed_env \<Rightarrow> db \<Rightarrow> db + db" where
  "seed_try k e d =
     (if fails e Connect then Inl d
      else case seed_admin k e d of
        Inl d' \<Rightarrow> Inl d'
      | Inr d1 \<Rightarrow>
          (case seed_user k e d1 of
             Inl d' \<Rightarrow> Inl d'
           | Inr d2 \<Rightarrow> seed_characters e d2))"

text \<open>The \<open>catch\<close> only logs: either way the run leaves the state it reached.\<close>

definition connectAndSeedDatabase :: "crypto \<Rightarrow> seed_env \<Rightarrow> db \<Rightarrow> db" where
  "connectAndSeedDatabase k e d = (case seed_try k e d of Inl d' \<Rightarrow> d' | Inr d' \<Rightarrow> d')"

section \<open>The specification's reading of the filter\<close>





text \<open>The accounts of a collection that carry a given username.\<close>

abbreviation named :: "string \<Rightarrow> user list \<Rightarrow> user list" where
  "named n us \<equiv> filter (\<lambda>u. username u = n) us"

section \<open>Sample data\<close>

definition red :: embedded_unit where
  "red = \<lparr>unit_id = ''red'', unit_name = ''Red'', emblemUrl = ''red.png'',
          motto = ''First in'', isElite = True, foundedYear = Num 1990\<rparr>"

definition blue :: embedded_unit where
  "blue = \<lparr>unit_id = ''blue'', unit_name = ''Blue'', emblemUrl = ''blue.png'',
           motto = ''Last out'', isElite = False, foundedYear = Num 2001\<rparr>"

definition alpha :: character where
  "alpha = \<lparr>char_oid = ''65f0a1'', char_id = ''c1'', name = js ''Alpha'', age = Num 30,
            description = ''Point man'', isActive = True, rank = ''Captain'',
            birthDate = ''1994-03-02'', imageUrl = ''alpha.png'', weapons = [''M4''],
            unit = red\<rparr>"

definition beta :: character where
  "beta = \<lparr>char_oid = ''65f0a2'', char_id = ''c2'', name = js ''Beta'', age = Num 41,
           description = ''Sniper'', isActive = False, rank = ''Sergeant'',
           birthDate = ''1983-11-20'', imageUrl = ''beta.png'', weapons = [''L96'', ''USP''],
           unit = blue\<rparr>"


text \<open>Seven characters, told apart by their id, one of them with an age that is no number.\<close>

definition aged :: "string \<Rightarrow> number \<Rightarrow> character" where
  "aged i n = alpha\<lparr>char_id := i, age := n\<rparr>"

definition nan_roster :: "character list" where
  "nan_roster =
     [aged ''a'' (Num 1), aged ''b'' (Num 2), aged ''c'' (Num 7), aged ''d'' NaN,
      aged ''e'' (Num 3), aged ''f'' (Num 0), aged ''g'' (Num 3)]"

definition of_age :: "number \<Rightarrow> character list \<Rightarrow> character list" where
  "of_age n cs = filter (\<lambda>c. age c = n) cs"

definition red_emblem :: emblem where
  "red_emblem = \<lparr>emblem_id = ''red'', emblem_doc = [(''motto'', ''First in, last out'')]\<rparr>"

definition sample_crypto :: crypto where
  "sample_crypto =
     \<lparr>bcrypt_hash = (\<lambda>p. ''$2a$10$'' @ p),
      bcrypt_compare = (\<lambda>p h. h = ''$2a$10$'' @ p),
      new_oid = (\<lambda>n. replicate (Suc n) CHR ''a'')\<rparr>"

definition admin_account :: user where
  "admin_account =
     \<lparr>user_oid = ''a'', username = ''admin'', password = ''$2a$10$admin123'', role = ADMIN\<rparr>"

definition sample_db :: db where
  "sample_db = \<lparr>users = [admin_account], characters = [alpha, beta], emblems = [red_emblem]\<rparr>"

definition empty_db :: db where
  "empty_db = \<lparr>users = [], characters = [], emblems = []\<rparr>"

definition anonymous :: session where
  "anonymous = \<lparr>session_user = None\<rparr>"

definition user_session :: session where
  "user_session = \<lparr>session_user = Some \<lparr>su_id = ''aa'', su_username = ''user'', su_role = USER\<rparr>\<rparr>"

definition admin_session :: session where
  "admin_session = \<lparr>session_user = Some \<lparr>su_id = ''a'', su_username = ''admin'', su_role = ADMIN\<rparr>\<rparr>"

definition sample_body :: edit_body where
  "sample_body = \<lparr>b_name = js ''Bravo'', b_age = Some ''42'', b_description = ''Marksman'',
                  b_isActive = Some ''true''\<rparr>"

definition quiet_env :: seed_env where
  "quiet_env = \<lparr>fails = (\<lambda>op. False), github_data = [alpha, beta], written = 0\<rparr>"

definition other_env :: seed_env where
  "other_env = \<lparr>fails = (\<lambda>op. False), github_data = [beta], written = 0\<rparr>"

section \<open>Storage operations: basic facts\<close>

lemma findOne_None_iff: "findOne p xs = None \<longleftrightarrow> (\<forall>x \<in> set xs. \<not> p x)"
  by (induction xs) auto

lemma findOne_Some_holds: "findOne p xs = Some x \<Longrightarrow> x \<in> set xs \<and> p x"
  by (induction xs) (auto split: if_splits)

lemma findOne_filter: "findOne p xs = (case filter p xs of [] \<Rightarrow> None | x # ys \<Rightarrow> Some x)"
  by (induction xs) auto

lemma length_updateOne: "length (updateOne p f xs) = length xs"
  by (induction xs) auto

lemma nth_updateOne:
  "i < length xs \<Longrightarrow>
     updateOne p f xs ! i = (if p (xs ! i) \<and> (\<forall>j<i. \<not> p (xs ! j)) then f (xs ! i) else xs ! i)"
proof (induction xs arbitrary: i)
  case Nil
  then show ?case by simp
next
  case (Cons x xs)
  show ?case
  proof (cases i)
    case 0
    then show ?thesis by simp
  next
    case (Suc k)
    with Cons.prems have k: "k < length xs" by simp
    show ?thesis
    proof (cases "p x")
      case True
      have "0 < i \<and> p ((x # xs) ! 0)" using True Suc by simp
      then have "\<not> (\<forall>j<i. \<not> p ((x # xs) ! j))" by blast
      then have "(if p ((x # xs) ! i) \<and> (\<forall>j<i. \<not> p ((x # xs) ! j)) then f ((x # xs) ! i)
                 else (x # xs) ! i) = xs ! k"
        using Suc by (simp only: if_False simp_thms nth_Cons_Suc)
      with True Suc show ?thesis by simp
    next
      case False
      have "(\<forall>j<i. \<not> p ((x # xs) ! j)) \<longleftrightarrow> (\<forall>j<k. \<not> p (xs ! j))"
        using False Suc by (auto simp: less_Suc_eq_0_disj)
      with False Suc Cons.IH [OF k] show ?thesis by auto
    qed
  qed
qed

section \<open>Session gate\<close>

text \<open>
  Claim C5. \<open>requireLogin\<close> passes exactly when the session holds a user, and otherwise
  redirects to \<open>/login\<close>; \<open>requireAdmin\<close> passes exactly when the session holds a user
  whose role is \<open>ADMIN\<close>, and otherwise answers with status 403 and the access-denied
  view. The two rejections are never the same response.
\<close>

theorem guards_decide:
  "(requireLogin s = Next \<longleftrightarrow> session_user s \<noteq> None)
   \<and> (requireLogin s \<noteq> Next \<longrightarrow> requireLogin s = Respond (Redirect ''/login''))
   \<and> (requireAdmin s = Next \<longleftrightarrow> (\<exists>u. session_user s = Some u \<and> su_role u = ADMIN))
   \<and> (requireAdmin s \<noteq> Next \<longrightarrow>
        requireAdmin s = Respond (Render 403 (ErrorView ''Geen toegang. Alleen voor admins.'')))
   \<and> (\<forall>t. requireLogin s \<noteq> Next \<longrightarrow> requireAdmin t \<noteq> Next \<longrightarrow> requireLogin s \<noteq> requireAdmin t)"
  by (auto simp: requireLogin_def requireAdmin_def split: option.splits)

theorem guards_decide_witness:
  "requireLogin anonymous = Respond (Redirect ''/login'')
   \<and> requireLogin user_session = Next
   \<and> requireAdmin user_session = Respond (Render 403 (ErrorView ''Geen toegang. Alleen voor admins.''))
   \<and> requireAdmin admin_session = Next
   \<and> requireLogin anonymous \<noteq> requireAdmin user_session"
proof -
  have anon: "session_user anonymous = None"
    and usr: "\<exists>u. session_user user_session = Some u \<and> su_role u = USER"
    and adm: "\<exists>u. session_user admin_session = Some u \<and> su_role u = ADMIN"
    by (simp_all add: anonymous_def user_session_def admin_session_def)
  from anon guards_decide [of anonymous]
  have 1: "requireLogin anonymous \<noteq> Next \<and> requireLogin anonymous = Respond (Redirect ''/login'')"
    by blast
  from usr guards_decide [of user_session]
  have 2: "requireLogin user_session = Next \<and> requireAdmin user_session \<noteq> Next
           \<and> requireAdmin user_session = Respond (Render 403 (ErrorView ''Geen toegang. Alleen voor admins.''))"
    by (metis option.distinct(1) option.inject role.distinct(1))
  from adm guards_decide [of admin_session]
  have 3: "requireAdmin admin_session = Next"
    by blast
  from 1 2 guards_decide [of anonymous]
  have 4: "requireLogin anonymous \<noteq> requireAdmin user_session"
    by blast
  from 1 2 3 4 show ?thesis by blast
qed

section \<open>Login and registration\<close>

text \<open>
  Claim C10. With a session that holds a user, \<open>GET /login\<close> and \<open>GET /register\<close>
  redirect to \<open>/characters\<close> and render no form; the forms are rendered only for a
  session without a user.
\<close>

theorem forms_only_without_session:
  "(session_user s \<noteq> None \<longrightarrow>
      get_login s = Redirect ''/characters'' \<and> get_register s = Redirect ''/characters'')
   \<and> (session_user s = None \<longrightarrow>
      get_login s = Render 200 (LoginView None) \<and> get_register s = Render 200 (RegisterView None))
   \<and> ((\<exists>n e. get_login s = Render n (LoginView e)) \<longrightarrow> session_user s = None)
   \<and> ((\<exists>n e. get_register s = Render n (RegisterView e)) \<longrightarrow> session_user s = None)"
  by (auto simp: get_login_def get_register_def split: option.splits)

theorem forms_only_without_session_witness:
  "get_login user_session = Redirect ''/characters''
   \<and> get_register user_session = Redirect ''/characters''
   \<and> get_login anonymous = Render 200 (LoginView None)
   \<and> get_register anonymous = Render 200 (RegisterView None)"
  using forms_only_without_session [of anonymous] forms_only_without_session [of user_session]
  by (simp add: anonymous_def user_session_def)

text \<open>
  Claim C4. A login that fails because no account has the username and a login that fails
  because the password does not match the stored hash have the same outcome: the
  session is left as it was, and the login form is rendered again with the one
  message. (With the store down both send nothing, and the session is again untouched.)
\<close>

theorem login_failures_alike:
  assumes unknown: "\<forall>a \<in> set (users d). username a \<noteq> u1"
    and known: "findOne (\<lambda>a. username a = u2) (users d) = Some acc"
    and wrong: "\<not> bcrypt_compare k p2 (password acc)"
  shows "post_login k up d s u1 p1 = post_login k up d s u2 p2
         \<and> fst (post_login k up d s u1 p1) = s
         \<and> (up \<longrightarrow> snd (post_login k up d s u1 p1)
                     = Render 200 (LoginView (Some ''Gebruikersnaam of wachtwoord onjuist.'')))"
proof -
  from unknown have "findOne (\<lambda>a. username a = u1) (users d) = None"
    by (simp add: findOne_None_iff)
  with known wrong show ?thesis
    by (simp add: post_login_def)
qed

theorem login_failures_alike_witness:
  "post_login sample_crypto True sample_db anonymous ''nobody'' ''admin123''
     = post_login sample_crypto True sample_db anonymous ''admin'' ''letmein''
   \<and> post_login sample_crypto True sample_db anonymous ''admin'' ''letmein''
     = (anonymous, Render 200 (LoginView (Some ''Gebruikersnaam of wachtwoord onjuist.'')))"
proof -
  have unknown: "\<forall>a \<in> set (users sample_db). username a \<noteq> ''nobody''"
    by (simp add: sample_db_def admin_account_def)
  have known: "findOne (\<lambda>a. username a = ''admin'') (users sample_db) = Some admin_account"
    by (simp add: sample_db_def admin_account_def)
  have wrong: "\<not> bcrypt_compare sample_crypto ''letmein'' (password admin_account)"
    by (simp add: sample_crypto_def admin_account_def)
  note t = login_failures_alike [OF unknown known wrong, of True anonymous "''admin123''"]
  from t have same: "post_login sample_crypto True sample_db anonymous ''nobody'' ''admin123''
          = post_login sample_crypto True sample_db anonymous ''admin'' ''letmein''"
    by blast
  from t have "fst (post_login sample_crypto True sample_db anonymous ''nobody'' ''admin123'') = anonymous"
    and "snd (post_login sample_crypto True sample_db anonymous ''nobody'' ''admin123'')
          = Render 200 (LoginView (Some ''Gebruikersnaam of wachtwoord onjuist.''))"
    by blast+
  then have "post_login sample_crypto True sample_db anonymous ''nobody'' ''admin123''
          = (anonymous, Render 200 (LoginView (Some ''Gebruikersnaam of wachtwoord onjuist.'')))"
    by (metis prod.collapse)
  with same show ?thesis by metis
qed

text \<open>
  Claim C6. Whatever the username, the password and the accounts already stored, a
  registration leaves the accounts as they are or appends one account, whose role is
  \<open>USER\<close>; the accounts with role \<open>ADMIN\<close> are the same before and after.
\<close>

theorem register_role_user:
  "filter (\<lambda>a. role a = ADMIN) (users (fst (post_register k up d uname pw)))
     = filter (\<lambda>a. role a = ADMIN) (users d)
   \<and> (users (fst (post_register k up d uname pw)) = users d
        \<or> (\<exists>a. users (fst (post_register k up d uname pw)) = users d @ [a]
                \<and> role a = USER \<and> username a = uname))"
  by (simp add: post_register_def split: option.splits)

theorem register_role_user_witness:
  "filter (\<lambda>a. role a = ADMIN) (users (fst (post_register sample_crypto True sample_db ''eve'' ''secret'')))
     = [admin_account]
   \<and> filter (\<lambda>a. role a = ADMIN) (users (fst (post_register sample_crypto True sample_db ''admin'' ''secret'')))
     = [admin_account]"
  using register_role_user [of sample_crypto True sample_db "''eve''" "''secret''"]
        register_role_user [of sample_crypto True sample_db "''admin''" "''secret''"]
  by (simp add: sample_db_def admin_account_def)

section \<open>Unit detail\<close>

lemma unit_detail_cases:
  "unit_detail_handler True d i =
     (case findOne (\<lambda>e. emblem_id e = i) (emblems d) of
        Some e \<Rightarrow> Render 200 (UnitDetailView (Emblem e) (filter (\<lambda>c. unit_id (unit c) = i) (characters d)))
      | None \<Rightarrow>
          (case findOne (\<lambda>c. unit_id (unit c) = i) (characters d) of
             Some m \<Rightarrow> Render 200 (UnitDetailView (Embedded (unit m)) (filter (\<lambda>c. unit_id (unit c) = i) (characters d)))
           | None \<Rightarrow> Send 404 (''Unit '' @ i @ '' niet gevonden.'')))"
  by (simp add: unit_detail_handler_def findOne_filter [of _ "characters d"] split: list.splits option.splits)

text \<open>
  Claim C9. With the store answering, the unit detail shows the emblem record of the
  requested id when there is one (the first in the collection); without an emblem
  record it shows the embedded unit of the first character whose unit has the id; and
  it sends a response instead of the view, the 404 one, exactly when there is neither
  an emblem record nor such a character.
\<close>

theorem unit_detail_precedence:
  "((\<exists>e \<in> set (emblems d). emblem_id e = i) \<longrightarrow>
      (\<exists>e \<in> set (emblems d). emblem_id e = i \<and>
         findOne (\<lambda>e. emblem_id e = i) (emblems d) = Some e \<and>
         unit_detail_handler True d i
           = Render 200 (UnitDetailView (Emblem e) (filter (\<lambda>c. unit_id (unit c) = i) (characters d)))))
   \<and> ((\<forall>e \<in> set (emblems d). emblem_id e \<noteq> i) \<longrightarrow>
        (\<forall>m. findOne (\<lambda>c. unit_id (unit c) = i) (characters d) = Some m \<longrightarrow>
           unit_detail_handler True d i
             = Render 200 (UnitDetailView (Embedded (unit m)) (filter (\<lambda>c. unit_id (unit c) = i) (characters d)))))
   \<and> ((\<exists>n body. unit_detail_handler True d i = Send n body) \<longleftrightarrow>
        (\<forall>e \<in> set (emblems d). emblem_id e \<noteq> i) \<and> (\<forall>c \<in> set (characters d). unit_id (unit c) \<noteq> i))
   \<and> ((\<forall>e \<in> set (emblems d). emblem_id e \<noteq> i) \<and> (\<forall>c \<in> set (characters d). unit_id (unit c) \<noteq> i) \<longrightarrow>
        unit_detail_handler True d i = Send 404 (''Unit '' @ i @ '' niet gevonden.''))"
proof -
  let ?E = "findOne (\<lambda>e. emblem_id e = i) (emblems d)"
  let ?M = "findOne (\<lambda>c. unit_id (unit c) = i) (characters d)"
  show ?thesis
  proof (cases ?E)
    case (Some e)
    then have "e \<in> set (emblems d)" "emblem_id e = i"
      using findOne_Some_holds [of "\<lambda>e. emblem_id e = i" "emblems d" e] by simp_all
    with Some show ?thesis
      by (auto simp: unit_detail_cases)
  next
    case None
    then have noE: "\<forall>e \<in> set (emblems d). emblem_id e \<noteq> i"
      by (simp add: findOne_None_iff)
    show ?thesis
    proof (cases ?M)
      case (Some m)
      then have "m \<in> set (characters d)" "unit_id (unit m) = i"
        using findOne_Some_holds [of "\<lambda>c. unit_id (unit c) = i" "characters d" m] by simp_all
      with Some None noE show ?thesis
        by (auto simp: unit_detail_cases)
    next
      case noM: None
      then have "\<forall>c \<in> set (characters d). unit_id (unit c) \<noteq> i"
        by (simp add: findOne_None_iff)
      with noM None noE show ?thesis
        by (simp add: unit_detail_cases)
    qed
  qed
qed

theorem unit_detail_precedence_witness:
  "unit_detail_handler True sample_db ''red'' = Render 200 (UnitDetailView (Emblem red_emblem) [alpha])
   \<and> unit_detail_handler True sample_db ''blue'' = Render 200 (UnitDetailView (Embedded blue) [beta])
   \<and> unit_detail_handler True sample_db ''green'' = Send 404 ''Unit green niet gevonden.''"
  using unit_detail_precedence [of sample_db "''red''"]
        unit_detail_precedence [of sample_db "''blue''"]
        unit_detail_precedence [of sample_db "''green''"]
  by (simp add: sample_db_def red_emblem_def alpha_def beta_def red_def blue_def)

section \<open>Editing a character\<close>

lemma set_fields_frame:
  "char_oid (set_fields b c) = char_oid c \<and> char_id (set_fields b c) = char_id c
   \<and> rank (set_fields b c) = rank c \<and> birthDate (set_fields b c) = birthDate c
   \<and> imageUrl (set_fields b c) = imageUrl c \<and> weapons (set_fields b c) = weapons c
   \<and> unit (set_fields b c) = unit c"
  by (simp add: set_fields_def)

lemma updateOne_frame:
  assumes "i < length cs"
  shows "let c = cs ! i; c' = updateOne (\<lambda>c. char_id c = cid) (set_fields b) cs ! i
         in char_oid c' = char_oid c \<and> char_id c' = char_id c \<and> rank c' = rank c
            \<and> birthDate c' = birthDate c \<and> imageUrl c' = imageUrl c
            \<and> weapons c' = weapons c \<and> unit c' = unit c
            \<and> (c' \<noteq> c \<longrightarrow> char_id c = cid \<and> (\<forall>j<i. char_id (cs ! j) \<noteq> cid)
                           \<and> c' = set_fields b c)"
proof (cases "char_id (cs ! i) = cid \<and> (\<forall>j<i. char_id (cs ! j) \<noteq> cid)")
  case True
  then have "updateOne (\<lambda>c. char_id c = cid) (set_fields b) cs ! i = set_fields b (cs ! i)"
    using nth_updateOne [OF assms, of "\<lambda>c. char_id c = cid" "set_fields b"] by simp
  with True show ?thesis
    using set_fields_frame [of b "cs ! i"] by (simp add: Let_def)
next
  case False
  then have "updateOne (\<lambda>c. char_id c = cid) (set_fields b) cs ! i = cs ! i"
    using nth_updateOne [OF assms, of "\<lambda>c. char_id c = cid" "set_fields b"] by auto
  then show ?thesis by (simp add: Let_def)
qed

lemma edit_route_cases:
  "fst (post_characters_edit s up d cid b) = d
   \<or> fst (post_characters_edit s up d cid b)
        = d\<lparr>characters := updateOne (\<lambda>c. char_id c = cid) (set_fields b) (characters d)\<rparr>"
  by (simp add: post_characters_edit_def edit_handler_def requireLogin_def requireAdmin_def
           split: option.splits guard.splits)

text \<open>
  Claim C8. For every session, store, requested id and form, the edit request keeps
  the number of characters, and at every position keeps the identifier, the id, the
  rank, the birth date, the image reference, the weapons and the embedded unit. A
  character that differs afterwards is the first one with the requested id, and it
  differs by the name, age, description and active flag of the form only. Accounts and
  emblem records are unchanged.
\<close>

theorem edit_frame:
  "length (characters (fst (post_characters_edit s up d cid b))) = length (characters d)
   \<and> (\<forall>i < length (characters d).
        let c = characters d ! i; c' = characters (fst (post_characters_edit s up d cid b)) ! i
        in char_oid c' = char_oid c \<and> char_id c' = char_id c \<and> rank c' = rank c
           \<and> birthDate c' = birthDate c \<and> imageUrl c' = imageUrl c
           \<and> weapons c' = weapons c \<and> unit c' = unit c
           \<and> (c' \<noteq> c \<longrightarrow> char_id c = cid \<and> (\<forall>j<i. char_id (characters d ! j) \<noteq> cid)
                          \<and> c' = set_fields b c))
   \<and> users (fst (post_characters_edit s up d cid b)) = users d
   \<and> emblems (fst (post_characters_edit s up d cid b)) = emblems d"
proof -
  consider (same) "fst (post_characters_edit s up d cid b) = d"
    | (upd) "fst (post_characters_edit s up d cid b)
        = d\<lparr>characters := updateOne (\<lambda>c. char_id c = cid) (set_fields b) (characters d)\<rparr>"
    using edit_route_cases by blast
  then show ?thesis
  proof cases
    case same
    then show ?thesis by (simp add: Let_def)
  next
    case upd
    then show ?thesis
      using updateOne_frame [of _ "characters d" cid b]
      by (simp add: length_updateOne)
  qed
qed

theorem edit_frame_witness:
  "length (characters (fst (post_characters_edit admin_session True sample_db ''c2'' sample_body))) = 2
   \<and> characters (fst (post_characters_edit admin_session True sample_db ''c2'' sample_body)) ! 0 = alpha
   \<and> unit (characters (fst (post_characters_edit admin_session True sample_db ''c2'' sample_body)) ! 1) = blue
   \<and> weapons (characters (fst (post_characters_edit admin_session True sample_db ''c2'' sample_body)) ! 1)
       = [''L96'', ''USP'']"
proof -
  let ?cs = "characters (fst (post_characters_edit admin_session True sample_db ''c2'' sample_body))"
  note t = edit_frame [of admin_session True sample_db "''c2''" sample_body]
  have cs: "characters sample_db = [alpha, beta]" by (simp add: sample_db_def)
  from t have len: "length ?cs = 2" by (simp add: cs)
  from t have each: "\<forall>i < length (characters sample_db).
        let c = characters sample_db ! i; c' = ?cs ! i
        in char_oid c' = char_oid c \<and> char_id c' = char_id c \<and> rank c' = rank c
           \<and> birthDate c' = birthDate c \<and> imageUrl c' = imageUrl c
           \<and> weapons c' = weapons c \<and> unit c' = unit c
           \<and> (c' \<noteq> c \<longrightarrow> char_id c = ''c2'' \<and> (\<forall>j<i. char_id (characters sample_db ! j) \<noteq> ''c2'')
                          \<and> c' = set_fields sample_body c)"
    by blast
  have "0 < length (characters sample_db)" "1 < length (characters sample_db)" by (simp_all add: cs)
  with each have
    zero: "?cs ! 0 \<noteq> alpha \<longrightarrow> char_id alpha = ''c2''" and
    one: "unit (?cs ! 1) = unit beta \<and> weapons (?cs ! 1) = weapons beta"
    by (auto simp: cs Let_def)
  have "char_id alpha \<noteq> ''c2''" by (simp add: alpha_def)
  with zero have "?cs ! 0 = alpha" by blast
  with len one show ?thesis by (simp add: beta_def)
qed

section \<open>Bootstrap seeder\<close>

lemma seed_admin_Inl: "seed_admin k e d = Inl d' \<Longrightarrow> d' = d"
  by (auto simp: seed_admin_def split: if_splits option.splits)

lemma seed_user_Inl: "seed_user k e d = Inl d' \<Longrightarrow> d' = d"
  by (auto simp: seed_user_def split: if_splits option.splits)

lemma seed_admin_Inr:
  assumes "seed_admin k e d = Inr d'"
  shows "\<not> fails e FindAdmin" and "\<exists>u \<in> set (users d'). username u = ''admin''"
    and "characters d' = characters d" and "emblems d' = emblems d"
    and "users d' = users d \<or> (\<exists>a. users d' = users d @ [a] \<and> username a = ''admin''
            \<and> (\<forall>u \<in> set (users d). username u \<noteq> ''admin''))"
  using assms
  by (auto simp: seed_admin_def findOne_None_iff split: if_splits option.splits
           dest: findOne_Some_holds)

lemma seed_user_Inr:
  assumes "seed_user k e d = Inr d'"
  shows "\<not> fails e FindUser" and "\<exists>u \<in> set (users d'). username u = ''user''"
    and "characters d' = characters d" and "emblems d' = emblems d"
    and "users d' = users d \<or> (\<exists>a. users d' = users d @ [a] \<and> username a = ''user''
            \<and> (\<forall>u \<in> set (users d). username u \<noteq> ''user''))"
  using assms
  by (auto simp: seed_user_def findOne_None_iff split: if_splits option.splits
           dest: findOne_Some_holds)

lemma seed_admin_present:
  "\<not> fails e FindAdmin \<Longrightarrow> \<exists>u \<in> set (users d). username u = ''admin'' \<Longrightarrow> seed_admin k e d = Inr d"
  by (cases "findOne (\<lambda>u. username u = ''admin'') (users d)")
     (auto simp: seed_admin_def findOne_None_iff)

lemma seed_user_present:
  "\<not> fails e FindUser \<Longrightarrow> \<exists>u \<in> set (users d). username u = ''user'' \<Longrightarrow> seed_user k e d = Inr d"
  by (cases "findOne (\<lambda>u. username u = ''user'') (users d)")
     (auto simp: seed_user_def findOne_None_iff)

lemma seed_characters_frame:
  assumes "seed_characters e d = r" and "r = Inl d' \<or> r = Inr d'"
  shows "users d' = users d" and "emblems d' = emblems d"
    and "characters d \<noteq> [] \<Longrightarrow> d' = d"
    and "\<exists>new. characters d' = characters d @ new"
  using assms by (auto simp: seed_characters_def split: if_splits)

lemma seed_characters_again:
  assumes "seed_characters e d = r" and "r = Inl d' \<or> r = Inr d'"
  shows "seed_characters e d' = Inl d' \<or> seed_characters e d' = Inr d'"
  using assms by (auto simp: seed_characters_def split: if_splits)

lemma seed_unfold:
  "connectAndSeedDatabase k e d =
     (if fails e Connect then d
      else case seed_admin k e d of
        Inl d' \<Rightarrow> d'
      | Inr d1 \<Rightarrow>
          (case seed_user k e d1 of
             Inl d' \<Rightarrow> d'
           | Inr d2 \<Rightarrow> (case seed_characters e d2 of Inl d' \<Rightarrow> d' | Inr d3 \<Rightarrow> d3)))"
  by (simp add: connectAndSeedDatabase_def seed_try_def split: sum.splits)

text \<open>
  A property that holds before the run and is kept by each block holds after the run,
  wherever the run ends.
\<close>

lemma seed_invariant:
  assumes init: "P d"
    and admin: "\<And>x y. P x \<Longrightarrow> seed_admin k e x = Inr y \<Longrightarrow> P y"
    and usr: "\<And>x y. P x \<Longrightarrow> seed_user k e x = Inr y \<Longrightarrow> P y"
    and chars: "\<And>x y. P x \<Longrightarrow> seed_characters e x = Inl y \<or> seed_characters e x = Inr y \<Longrightarrow> P y"
  shows "P (connectAndSeedDatabase k e d)"
proof (cases "fails e Connect")
  case True
  with init show ?thesis by (simp add: seed_unfold)
next
  case up: False
  show ?thesis
  proof (cases "seed_admin k e d")
    case (Inl d0)
    with seed_admin_Inl [OF Inl] up init show ?thesis
      by (simp add: seed_unfold)
  next
    case a: (Inr d1)
    have p1: "P d1" using init a by (rule admin)
    show ?thesis
    proof (cases "seed_user k e d1")
      case (Inl d0)
      with seed_user_Inl [OF Inl] up a p1 show ?thesis
        by (simp add: seed_unfold)
    next
      case u: (Inr d2)
      have p2: "P d2" using p1 u by (rule usr)
      show ?thesis
      proof (cases "seed_characters e d2")
        case (Inl d3)
        then have "P d3" using chars [OF p2] by blast
        with up a u Inl show ?thesis by (simp add: seed_unfold)
      next
        case (Inr d3)
        then have "P d3" using chars [OF p2] by blast
        with up a u Inr show ?thesis by (simp add: seed_unfold)
      qed
    qed
  qed
qed

lemma seed_again_same_env:
  "connectAndSeedDatabase k e (connectAndSeedDatabase k e d) = connectAndSeedDatabase k e d"
proof (cases "fails e Connect")
  case True
  then show ?thesis by (simp add: seed_unfold)
next
  case up: False
  show ?thesis
  proof (cases "seed_admin k e d")
    case (Inl d0)
    then have "d0 = d" by (rule seed_admin_Inl)
    with Inl up show ?thesis by (simp add: seed_unfold)
  next
    case admin: (Inr d1)
    note a = seed_admin_Inr [OF admin]
    have admin1: "seed_admin k e d1 = Inr d1"
      using a(1,2) by (rule seed_admin_present)
    show ?thesis
    proof (cases "seed_user k e d1")
      case (Inl d0)
      then have "d0 = d1" by (rule seed_user_Inl)
      with Inl up admin admin1 show ?thesis by (simp add: seed_unfold)
    next
      case usr: (Inr d2)
      note u = seed_user_Inr [OF usr]
      obtain d3 where r: "seed_characters e d2 = Inl d3 \<or> seed_characters e d2 = Inr d3"
        by (cases "seed_characters e d2") auto
      then have fin: "connectAndSeedDatabase k e d = d3"
        using up admin usr by (auto simp: seed_unfold)
      have c: "users d3 = users d2"
        using seed_characters_frame(1) [OF refl, of e d2 d3] r by blast
      have "\<exists>x \<in> set (users d2). username x = ''admin''"
        using a(2) u(5) by auto
      with c a(1) have admin3: "seed_admin k e d3 = Inr d3"
        by (intro seed_admin_present) simp_all
      from c u(1,2) have user3: "seed_user k e d3 = Inr d3"
        by (intro seed_user_present) simp_all
      have "seed_characters e d3 = Inl d3 \<or> seed_characters e d3 = Inr d3"
        using seed_characters_again [OF refl, of e d2 d3] r by blast
      then have "connectAndSeedDatabase k e d3 = d3"
        using up admin3 user3 by (auto simp: seed_unfold)
      with fin show ?thesis by simp
    qed
  qed
qed

lemma seed_admin_count:
  "seed_admin k e x = Inr y \<Longrightarrow> length (named n (users y)) \<le> max 1 (length (named n (users x)))"
  by (auto simp: seed_admin_def findOne_None_iff filter_empty_conv split: if_splits option.splits)

lemma seed_user_count:
  "seed_user k e x = Inr y \<Longrightarrow> length (named n (users y)) \<le> max 1 (length (named n (users x)))"
  by (auto simp: seed_user_def findOne_None_iff filter_empty_conv split: if_splits option.splits)

lemma seed_count:
  "length (named n (users (connectAndSeedDatabase k e d))) \<le> max 1 (length (named n (users d)))"
proof (rule seed_invariant [where P = "\<lambda>x. length (named n (users x)) \<le> max 1 (length (named n (users d)))"])
  show "length (named n (users d)) \<le> max 1 (length (named n (users d)))" by simp
next
  fix x y assume "length (named n (users x)) \<le> max 1 (length (named n (users d)))" "seed_admin k e x = Inr y"
  then show "length (named n (users y)) \<le> max 1 (length (named n (users d)))"
    using seed_admin_count [of k e x y n] by simp
next
  fix x y assume "length (named n (users x)) \<le> max 1 (length (named n (users d)))" "seed_user k e x = Inr y"
  then show "length (named n (users y)) \<le> max 1 (length (named n (users d)))"
    using seed_user_count [of k e x y n] by simp
next
  fix x y assume "length (named n (users x)) \<le> max 1 (length (named n (users d)))"
     "seed_characters e x = Inl y \<or> seed_characters e x = Inr y"
  then show "length (named n (users y)) \<le> max 1 (length (named n (users d)))"
    using seed_characters_frame(1) [OF refl, of e x y] by auto
qed

lemma seed_users_prefix: "prefix (users d) (users (connectAndSeedDatabase k e d))"
proof (rule seed_invariant [where P = "\<lambda>x. prefix (users d) (users x)"])
  show "prefix (users d) (users d)" by simp
next
  fix x y assume "prefix (users d) (users x)" "seed_admin k e x = Inr y"
  then show "prefix (users d) (users y)"
    using seed_admin_Inr(5) [of k e x y] by (auto simp: prefix_def)
next
  fix x y assume "prefix (users d) (users x)" "seed_user k e x = Inr y"
  then show "prefix (users d) (users y)"
    using seed_user_Inr(5) [of k e x y] by (auto simp: prefix_def)
next
  fix x y assume "prefix (users d) (users x)" "seed_characters e x = Inl y \<or> seed_characters e x = Inr y"
  then show "prefix (users d) (users y)"
    using seed_characters_frame(1) [OF refl, of e x y] by auto
qed

lemma seed_characters_kept:
  assumes "characters d \<noteq> []"
  shows "characters (connectAndSeedDatabase k e d) = characters d"
proof (rule seed_invariant [where P = "\<lambda>x. characters x = characters d"])
  show "characters d = characters d" by simp
next
  fix x y assume "characters x = characters d" "seed_admin k e x = Inr y"
  then show "characters y = characters d" using seed_admin_Inr(3) [of k e x y] by simp
next
  fix x y assume "characters x = characters d" "seed_user k e x = Inr y"
  then show "characters y = characters d" using seed_user_Inr(3) [of k e x y] by simp
next
  fix x y assume "characters x = characters d" "seed_characters e x = Inl y \<or> seed_characters e x = Inr y"
  then show "characters y = characters d"
    using seed_characters_frame(3) [OF refl, of e x y] assms by auto
qed

lemma seed_accounts_kept:
  assumes "\<exists>u \<in> set (users d). username u = ''admin''" and "\<exists>u \<in> set (users d). username u = ''user''"
  shows "users (connectAndSeedDatabase k e d) = users d"
proof (rule seed_invariant [where P = "\<lambda>x. users x = users d"])
  show "users d = users d" by simp
next
  fix x y assume "users x = users d" "seed_admin k e x = Inr y"
  then show "users y = users d" using seed_admin_Inr(5) [of k e x y] assms(1) by auto
next
  fix x y assume "users x = users d" "seed_user k e x = Inr y"
  then show "users y = users d" using seed_user_Inr(5) [of k e x y] assms(2) by auto
next
  fix x y assume "users x = users d" "seed_characters e x = Inl y \<or> seed_characters e x = Inr y"
  then show "users y = users d"
    using seed_characters_frame(1) [OF refl, of e x y] by auto
qed

text \<open>After a run whose \<open>try\<close> block reached its end, a run in any environment changes nothing.\<close>

lemma seed_completed_fixed:
  assumes "seed_try k e d = Inr d'"
  shows "connectAndSeedDatabase k' e' d' = d'"
proof -
  from assms obtain d1 d2 where a: "seed_admin k e d = Inr d1" and u: "seed_user k e d1 = Inr d2"
    and c: "seed_characters e d2 = Inr d'"
    by (auto simp: seed_try_def split: if_splits sum.splits)
  have users: "users d' = users d2"
    using seed_characters_frame(1) [OF c] by simp
  have "\<exists>x \<in> set (users d2). username x = ''admin''"
    using seed_admin_Inr(2) [OF a] seed_user_Inr(5) [OF u] by auto
  with users have adm: "\<exists>x \<in> set (users d'). username x = ''admin''" by simp
  from users seed_user_Inr(2) [OF u] have usr: "\<exists>x \<in> set (users d'). username x = ''user''" by simp
  from c have chars: "characters d' \<noteq> []"
    by (auto simp: seed_characters_def split: if_splits)
  show ?thesis
  proof (rule seed_invariant [where P = "\<lambda>x. x = d'"])
    show "d' = d'" by simp
  next
    fix x y assume "x = d'" "seed_admin k' e' x = Inr y"
    with adm show "y = d'"
      by (auto simp: seed_admin_def findOne_None_iff split: if_splits option.splits)
  next
    fix x y assume "x = d'" "seed_user k' e' x = Inr y"
    with usr show "y = d'"
      by (auto simp: seed_user_def findOne_None_iff split: if_splits option.splits)
  next
    fix x y assume "x = d'" "seed_characters e' x = Inl y \<or> seed_characters e' x = Inr y"
    with chars show "y = d'"
      using seed_characters_frame(3) [OF refl, of e' d' y] by blast
  qed
qed

text \<open>
  Claim C7. A second run of the seeder in the same environment gives the state of the
  first run. Whatever the environments of the two runs are, the accounts named
  \<open>admin\<close> and \<open>user\<close> are not duplicated (after two runs a username is carried by at
  most one account, or by as many as before the first run), a character collection
  that is not empty after the first run is the same after the second, and after a first
  run that reached the end of its \<open>try\<close> block the second run changes nothing. One
  run only appends to the accounts, leaves a character collection that is not empty
  as it is, and leaves the accounts as they are when both names exist.
\<close>

theorem seed_twice:
  "connectAndSeedDatabase k e (connectAndSeedDatabase k e d) = connectAndSeedDatabase k e d
   \<and> (\<forall>n. length (named n (users (connectAndSeedDatabase k' e' (connectAndSeedDatabase k e d))))
           \<le> max 1 (length (named n (users d))))
   \<and> (characters (connectAndSeedDatabase k e d) \<noteq> [] \<longrightarrow>
        characters (connectAndSeedDatabase k' e' (connectAndSeedDatabase k e d))
          = characters (connectAndSeedDatabase k e d))
   \<and> (seed_try k e d = Inr (connectAndSeedDatabase k e d) \<longrightarrow>
        connectAndSeedDatabase k' e' (connectAndSeedDatabase k e d) = connectAndSeedDatabase k e d)
   \<and> prefix (users d) (users (connectAndSeedDatabase k e d))
   \<and> (characters d \<noteq> [] \<longrightarrow> characters (connectAndSeedDatabase k e d) = characters d)
   \<and> ((\<exists>u \<in> set (users d). username u = ''admin'') \<and> (\<exists>u \<in> set (users d). username u = ''user'')
        \<longrightarrow> users (connectAndSeedDatabase k e d) = users d)"
proof -
  have twice: "length (named n (users (connectAndSeedDatabase k' e' (connectAndSeedDatabase k e d))))
           \<le> max 1 (length (named n (users d)))" for n
    using seed_count [of n k' e' "connectAndSeedDatabase k e d"] seed_count [of n k e d] by simp
  show ?thesis
    using seed_again_same_env [of k e d] twice seed_users_prefix [of d k e]
      seed_characters_kept [of d k e] seed_characters_kept [of "connectAndSeedDatabase k e d" k' e']
      seed_accounts_kept [of d k e]
      seed_completed_fixed [of k e d "connectAndSeedDatabase k e d" k' e']
    by blast
qed

lemma seed_sample_run:
  "map username (users (connectAndSeedDatabase sample_crypto quiet_env empty_db)) = [''admin'', ''user'']"
  "characters (connectAndSeedDatabase sample_crypto quiet_env empty_db) = [alpha, beta]"
  by (simp_all add: seed_unfold seed_admin_def seed_user_def seed_characters_def
        quiet_env_def empty_db_def sample_crypto_def)

theorem seed_twice_witness:
  "connectAndSeedDatabase sample_crypto quiet_env (connectAndSeedDatabase sample_crypto quiet_env empty_db)
     = connectAndSeedDatabase sample_crypto quiet_env empty_db
   \<and> connectAndSeedDatabase sample_crypto other_env (connectAndSeedDatabase sample_crypto quiet_env empty_db)
     = connectAndSeedDatabase sample_crypto quiet_env empty_db
   \<and> characters (connectAndSeedDatabase sample_crypto other_env
                   (connectAndSeedDatabase sample_crypto quiet_env empty_db)) = [alpha, beta]
   \<and> map username (users (connectAndSeedDatabase sample_crypto other_env
                   (connectAndSeedDatabase sample_crypto quiet_env empty_db))) = [''admin'', ''user'']"
proof -
  let ?once = "connectAndSeedDatabase sample_crypto quiet_env empty_db"
  note first = seed_twice [of sample_crypto quiet_env empty_db sample_crypto other_env]
  note second = seed_twice [of sample_crypto other_env ?once sample_crypto other_env]
  from first have same: "connectAndSeedDatabase sample_crypto quiet_env ?once = ?once"
    by blast
  from first have keep: "characters ?once \<noteq> [] \<longrightarrow>
      characters (connectAndSeedDatabase sample_crypto other_env ?once) = characters ?once"
    by blast
  then have c: "characters (connectAndSeedDatabase sample_crypto other_env ?once) = [alpha, beta]"
    by (simp add: seed_sample_run)
  have "''admin'' \<in> set (map username (users ?once))" "''user'' \<in> set (map username (users ?once))"
    by (simp_all only: seed_sample_run list.set insert_iff simp_thms)
  then have both: "(\<exists>u \<in> set (users ?once). username u = ''admin'')
                 \<and> (\<exists>u \<in> set (users ?once). username u = ''user'')"
    by auto
  from second have "(\<exists>u \<in> set (users ?once). username u = ''admin'')
                 \<and> (\<exists>u \<in> set (users ?once). username u = ''user'')
       \<longrightarrow> users (connectAndSeedDatabase sample_crypto other_env ?once) = users ?once"
    by blast
  with both have "users (connectAndSeedDatabase sample_crypto other_env ?once) = users ?once"
    by blast
  then have u: "map username (users (connectAndSeedDatabase sample_crypto other_env ?once)) = [''admin'', ''user'']"
    by (simp add: seed_sample_run)
  have "seed_try sample_crypto quiet_env empty_db = Inr ?once"
    by (simp add: connectAndSeedDatabase_def seed_try_def seed_admin_def seed_user_def
          seed_characters_def quiet_env_def empty_db_def sample_crypto_def)
  with first have fixed: "connectAndSeedDatabase sample_crypto other_env ?once = ?once"
    by blast
  from same fixed c u show ?thesis by blast
qed

section \<open>Roster query engine: the filter step\<close>











lemma js_units: "js (c # cs) = of_char c # js cs" "js [] = []"
  by (simp_all add: js_def)




section \<open>Roster query engine: the sort step\<close>

text \<open>Run detection.\<close>

lemma run_while_append: "run_while R p xs = (r, rest) \<Longrightarrow> r @ rest = xs"
  by (induction xs arbitrary: p r rest) (auto split: if_splits prod.splits)

lemma run_while_successively:
  "run_while R p xs = (r, rest) \<Longrightarrow> successively (\<lambda>a b. R b a) (p # r)"
  by (induction xs arbitrary: p r rest) (auto split: if_splits prod.splits)

lemma run_while_all:
  "successively (\<lambda>a b. R b a) (p # xs) \<Longrightarrow> run_while R p xs = (xs, [])"
  by (induction xs arbitrary: p) auto

lemma countAndMakeRun_shape:
  assumes "countAndMakeRun cmp xs = (run, rest)"
  shows "run @ rest = xs
         \<or> (\<exists>r0. run = rev r0 \<and> r0 @ rest = xs \<and> successively (\<lambda>p c. cmp c p < 0) r0)"
proof -
  consider (short) "xs = []" | (one) a where "xs = [a]" | (long) a b ys where "xs = a # b # ys"
    by (cases xs rule: remdups_adj.cases) auto
  then show ?thesis
  proof cases
    case short
    with assms show ?thesis by simp
  next
    case one
    with assms show ?thesis by simp
  next
    case xs: long
    show ?thesis
    proof (cases "cmp b a < 0")
      case True
      obtain r rest' where rw: "run_while (\<lambda>cur prev. cmp cur prev < 0) b ys = (r, rest')"
        by (cases "run_while (\<lambda>cur prev. cmp cur prev < 0) b ys") auto
      with True assms xs have run: "run = rev (a # b # r)" and rest: "rest = rest'" by auto
      have "successively (\<lambda>p c. cmp c p < 0) (a # b # r)"
        using run_while_successively [OF rw] True by simp
      moreover have "(a # b # r) @ rest = xs"
        using run_while_append [OF rw] xs rest by simp
      ultimately show ?thesis using run by blast
    next
      case False
      obtain r rest' where rw: "run_while (\<lambda>cur prev. \<not> cmp cur prev < 0) b ys = (r, rest')"
        by (cases "run_while (\<lambda>cur prev. \<not> cmp cur prev < 0) b ys") auto
      with False assms xs have "run = a # b # r" "rest = rest'" by auto
      then show ?thesis using run_while_append [OF rw] xs by simp
    qed
  qed
qed

lemma countAndMakeRun_successively:
  assumes anti: "\<And>a b. \<not> cmp b a < 0 \<Longrightarrow> cmp a b \<le> 0"
    and "countAndMakeRun cmp xs = (run, rest)"
  shows "successively (\<lambda>a b. cmp a b \<le> 0) run"
proof -
  consider (short) "xs = []" | (one) a where "xs = [a]" | (long) a b ys where "xs = a # b # ys"
    by (cases xs rule: remdups_adj.cases) auto
  then show ?thesis
  proof cases
    case short
    with assms(2) show ?thesis by auto
  next
    case one
    with assms(2) show ?thesis by auto
  next
    case xs: long
    show ?thesis
    proof (cases "cmp b a < 0")
      case True
      obtain r rest' where rw: "run_while (\<lambda>cur prev. cmp cur prev < 0) b ys = (r, rest')"
        by (cases "run_while (\<lambda>cur prev. cmp cur prev < 0) b ys") auto
      with True assms(2) xs have run: "run = rev (a # b # r)" by auto
      have "successively (\<lambda>p c. cmp c p < 0) (a # b # r)"
        using run_while_successively [OF rw] True by simp
      then have "successively (\<lambda>p c. cmp c p \<le> 0) (a # b # r)"
        by (rule successively_mono) auto
      then show ?thesis unfolding run by (simp only: successively_rev)
    next
      case False
      obtain r rest' where rw: "run_while (\<lambda>cur prev. \<not> cmp cur prev < 0) b ys = (r, rest')"
        by (cases "run_while (\<lambda>cur prev. \<not> cmp cur prev < 0) b ys") auto
      with False assms(2) xs have run: "run = a # b # r" by auto
      have "successively (\<lambda>p c. \<not> cmp c p < 0) (a # b # r)"
        using run_while_successively [OF rw] False by simp
      then show ?thesis unfolding run by (rule successively_mono) (auto intro: anti)
    qed
  qed
qed

lemma countAndMakeRun_sorted:
  assumes anti: "\<And>a b. cmp a b \<le> 0 \<Longrightarrow> \<not> cmp b a < 0"
    and "successively (\<lambda>a b. cmp a b \<le> 0) xs"
  shows "countAndMakeRun cmp xs = (xs, [])"
proof -
  consider (short) "xs = []" | (one) a where "xs = [a]" | (long) a b ys where "xs = a # b # ys"
    by (cases xs rule: remdups_adj.cases) auto
  then show ?thesis
  proof cases
    case short
    then show ?thesis by simp
  next
    case one
    then show ?thesis by simp
  next
    case xs: long
    from assms(2) xs have ab: "cmp a b \<le> 0" and tl: "successively (\<lambda>a b. cmp a b \<le> 0) (b # ys)"
      by simp_all
    from tl have "successively (\<lambda>p c. \<not> cmp c p < 0) (b # ys)"
      by (rule successively_mono) (auto dest: anti)
    then have "run_while (\<lambda>cur prev. \<not> cmp cur prev < 0) b ys = (ys, [])"
      by (rule run_while_all)
    with anti [OF ab] xs show ?thesis by simp
  qed
qed


lemma binary_search_bounds:
  assumes "left \<le> right" and "right \<le> length ps"
    and "left = 0 \<or> \<not> cmp pivot (ps ! (left - 1)) < 0"
    and "right = length ps \<or> cmp pivot (ps ! right) < 0"
  shows "let k = binary_search cmp pivot ps left right
         in left \<le> k \<and> k \<le> right
            \<and> (k = 0 \<or> \<not> cmp pivot (ps ! (k - 1)) < 0)
            \<and> (k = length ps \<or> cmp pivot (ps ! k) < 0)"
  using assms
proof (induction cmp pivot ps left right rule: binary_search.induct)
  case (1 cmp pivot ps left right)
  show ?case
  proof (cases "left < right")
    case False
    with "1.prems" have "left = right" by simp
    with "1.prems" show ?thesis by (simp add: binary_search.simps [of cmp pivot ps right right])
  next
    case True
    define mid where "mid = left + (right - left) div 2"
    have mid: "left \<le> mid" "mid < right" using True by (simp_all add: mid_def)
    show ?thesis
    proof (cases "cmp pivot (ps ! mid) < 0")
      case lt: True
      have eq: "binary_search cmp pivot ps left right = binary_search cmp pivot ps left mid"
        using True lt by (simp add: binary_search.simps [of cmp pivot ps left right] mid_def Let_def)
      have "let k = binary_search cmp pivot ps left mid
            in left \<le> k \<and> k \<le> mid
               \<and> (k = 0 \<or> \<not> cmp pivot (ps ! (k - 1)) < 0)
               \<and> (k = length ps \<or> cmp pivot (ps ! k) < 0)"
        using "1.IH"(1) [OF True mid_def lt] mid "1.prems" lt by simp
      with mid show ?thesis by (simp add: eq Let_def)
    next
      case ge: False
      have eq: "binary_search cmp pivot ps left right = binary_search cmp pivot ps (mid + 1) right"
        using True ge by (simp add: binary_search.simps [of cmp pivot ps left right] mid_def Let_def)
      have "let k = binary_search cmp pivot ps (mid + 1) right
            in mid + 1 \<le> k \<and> k \<le> right
               \<and> (k = 0 \<or> \<not> cmp pivot (ps ! (k - 1)) < 0)
               \<and> (k = length ps \<or> cmp pivot (ps ! k) < 0)"
        using "1.IH"(2) [OF True mid_def ge] mid "1.prems" ge by simp
      with mid show ?thesis by (auto simp: eq Let_def)
    qed
  qed
qed

lemma binary_search_place:
  "let k = binary_search cmp pivot ps 0 (length ps)
   in k \<le> length ps
      \<and> (k = 0 \<or> \<not> cmp pivot (ps ! (k - 1)) < 0)
      \<and> (k = length ps \<or> cmp pivot (ps ! k) < 0)"
  using binary_search_bounds [of 0 "length ps" ps cmp pivot] by (simp add: Let_def)

lemma set_binary_insert: "set (binary_insert cmp ps x) = insert x (set ps)"
proof -
  have "set (take k ps) \<union> set (drop k ps) = set ps" for k
    by (metis append_take_drop_id set_append)
  then show ?thesis by (auto simp: binary_insert_def Let_def)
qed

lemma successively_binary_insert:
  assumes anti: "\<And>a b. \<not> cmp b a < 0 \<Longrightarrow> cmp a b \<le> 0"
    and ps: "successively (\<lambda>a b. cmp a b \<le> 0) ps"
  shows "successively (\<lambda>a b. cmp a b \<le> 0) (binary_insert cmp ps x)"
proof -
  define k where "k = binary_search cmp x ps 0 (length ps)"
  have k: "k \<le> length ps" "k = 0 \<or> \<not> cmp x (ps ! (k - 1)) < 0" "k = length ps \<or> cmp x (ps ! k) < 0"
    using binary_search_place [of cmp x ps] by (simp_all add: k_def Let_def)
  have split: "successively (\<lambda>a b. cmp a b \<le> 0) (take k ps @ drop k ps)"
    using ps by simp
  then have tk: "successively (\<lambda>a b. cmp a b \<le> 0) (take k ps)"
    and dk: "successively (\<lambda>a b. cmp a b \<le> 0) (drop k ps)"
    by (simp_all only: successively_append_iff)
  have before: "cmp (last (take k ps)) x \<le> 0" if "take k ps \<noteq> []"
  proof -
    from that have "0 < k" by auto
    with k(1) have "take k ps \<noteq> []" "length (take k ps) = k" by auto
    then have "last (take k ps) = take k ps ! (k - 1)"
      using last_conv_nth [of "take k ps"] by simp
    with \<open>0 < k\<close> have "last (take k ps) = ps ! (k - 1)"
      by simp
    with k(2) \<open>0 < k\<close> show ?thesis by (auto intro: anti)
  qed
  have after: "cmp x (hd (drop k ps)) \<le> 0" if "drop k ps \<noteq> []"
  proof -
    from that have "k < length ps" by simp
    then have "hd (drop k ps) = ps ! k" by (simp add: hd_drop_conv_nth)
    with k(3) \<open>k < length ps\<close> show ?thesis by auto
  qed
  have "successively (\<lambda>a b. cmp a b \<le> 0) (x # drop k ps)"
    using dk after by (auto simp: successively_Cons)
  with tk before have "successively (\<lambda>a b. cmp a b \<le> 0) (take k ps @ x # drop k ps)"
    by (auto simp: successively_append_iff)
  then show ?thesis by (simp add: binary_insert_def k_def Let_def)
qed

lemma successively_binaryInsertionSort:
  assumes anti: "\<And>a b. \<not> cmp b a < 0 \<Longrightarrow> cmp a b \<le> 0"
    and "successively (\<lambda>a b. cmp a b \<le> 0) run"
  shows "successively (\<lambda>a b. cmp a b \<le> 0) (binaryInsertionSort cmp run rest)"
  using assms(2) unfolding binaryInsertionSort_def
  by (induction rest arbitrary: run) (simp_all add: successively_binary_insert [OF anti])

lemma successively_array_sort:
  assumes anti: "\<And>a b. \<not> cmp b a < 0 \<Longrightarrow> cmp a b \<le> 0"
  shows "successively (\<lambda>a b. cmp a b \<le> 0) (array_sort cmp xs)"
proof -
  obtain run rest where r: "countAndMakeRun cmp xs = (run, rest)"
    by (cases "countAndMakeRun cmp xs") auto
  have "successively (\<lambda>a b. cmp a b \<le> 0) run"
    using anti r by (rule countAndMakeRun_successively)
  then show ?thesis
    using successively_binaryInsertionSort [OF anti] by (simp add: array_sort_def r)
qed

lemma array_sort_fixed:
  assumes "\<And>a b. cmp a b \<le> 0 \<Longrightarrow> \<not> cmp b a < 0"
    and "successively (\<lambda>a b. cmp a b \<le> 0) xs"
  shows "array_sort cmp xs = xs"
  using countAndMakeRun_sorted [of cmp xs] assms
  by (simp add: array_sort_def binaryInsertionSort_def)


text \<open>Stability, for a comparison function that is transitive on the elements sorted.\<close>

lemma successively_sorted_wrt_on:
  assumes trans: "\<And>a b c. a \<in> S \<Longrightarrow> b \<in> S \<Longrightarrow> c \<in> S \<Longrightarrow> R a b \<Longrightarrow> R b c \<Longrightarrow> R a c"
    and "set ps \<subseteq> S" and "successively R ps"
  shows "sorted_wrt R ps"
proof -
  have "successively R ps \<longleftrightarrow> sorted_wrt R ps"
    by (rule successively_iff_sorted_wrt_strong) (use assms(2) in \<open>blast intro: trans\<close>)
  with assms(3) show ?thesis by simp
qed

lemma binary_search_after:
  assumes anti: "\<And>a b. cmp a b \<le> 0 \<longleftrightarrow> \<not> cmp b a < 0"
    and trans: "\<And>a b c. a \<in> S \<Longrightarrow> b \<in> S \<Longrightarrow> c \<in> S \<Longrightarrow> cmp a b \<le> 0 \<Longrightarrow> cmp b c \<le> 0 \<Longrightarrow> cmp a c \<le> 0"
    and sorted: "sorted_wrt (\<lambda>a b. cmp a b \<le> 0) ps"
    and sub: "set ps \<subseteq> S" and x: "x \<in> S"
  shows "\<forall>y \<in> set (drop (binary_search cmp x ps 0 (length ps)) ps). cmp x y < 0"
proof
  define k where "k = binary_search cmp x ps 0 (length ps)"
  fix y assume "y \<in> set (drop (binary_search cmp x ps 0 (length ps)) ps)"
  then have "y \<in> set (drop k ps)" by (simp add: k_def)
  then obtain i where i: "i < length ps - k" "y = ps ! (k + i)"
    by (auto simp: in_set_conv_nth)
  define j where "j = k + i"
  have j: "k \<le> j" "j < length ps" "y = ps ! j"
    using i by (simp_all add: j_def)
  have "k = length ps \<or> cmp x (ps ! k) < 0"
    using binary_search_place [of cmp x ps] by (simp add: k_def Let_def)
  with j have xk: "cmp x (ps ! k) < 0" by auto
  show "cmp x y < 0"
  proof (cases "j = k")
    case True
    with xk j show ?thesis by simp
  next
    case False
    with j have "k < j" by simp
    with j have kj: "cmp (ps ! k) (ps ! j) \<le> 0"
      using sorted_wrt_nth_less [OF sorted, of k j] by simp
    show ?thesis
    proof (rule ccontr)
      assume "\<not> cmp x y < 0"
      then have "cmp y x \<le> 0" by (simp add: anti)
      moreover have "ps ! k \<in> S" "y \<in> S" using j sub by auto
      ultimately have "cmp (ps ! k) x \<le> 0" using kj j x trans by blast
      then have "\<not> cmp x (ps ! k) < 0" by (simp add: anti)
      with xk show False by simp
    qed
  qed
qed

lemma filter_binary_insert:
  assumes anti: "\<And>a b. cmp a b \<le> 0 \<longleftrightarrow> \<not> cmp b a < 0"
    and trans: "\<And>a b c. a \<in> S \<Longrightarrow> b \<in> S \<Longrightarrow> c \<in> S \<Longrightarrow> cmp a b \<le> 0 \<Longrightarrow> cmp b c \<le> 0 \<Longrightarrow> cmp a c \<le> 0"
    and cls: "\<And>a b. K a \<Longrightarrow> K b \<Longrightarrow> cmp a b = 0"
    and sorted: "sorted_wrt (\<lambda>a b. cmp a b \<le> 0) ps"
    and sub: "set ps \<subseteq> S" and x: "x \<in> S"
  shows "filter K (binary_insert cmp ps x) = filter K ps @ filter K [x]"
proof -
  define k where "k = binary_search cmp x ps 0 (length ps)"
  have after: "\<forall>y \<in> set (drop k ps). cmp x y < 0"
    unfolding k_def using anti trans sorted sub x by (rule binary_search_after)
  have split: "filter K ps = filter K (take k ps) @ filter K (drop k ps)"
    by (metis append_take_drop_id filter_append)
  show ?thesis
  proof (cases "K x")
    case True
    have "\<not> K y" if "y \<in> set (drop k ps)" for y
      using after that cls [OF True, of y] by auto
    then have "filter K (drop k ps) = []" by (simp add: filter_empty_conv)
    with True split show ?thesis by (simp add: binary_insert_def k_def Let_def)
  next
    case False
    with split show ?thesis by (simp add: binary_insert_def k_def Let_def)
  qed
qed

lemma filter_binaryInsertionSort:
  assumes anti: "\<And>a b. cmp a b \<le> 0 \<longleftrightarrow> \<not> cmp b a < 0"
    and trans: "\<And>a b c. a \<in> S \<Longrightarrow> b \<in> S \<Longrightarrow> c \<in> S \<Longrightarrow> cmp a b \<le> 0 \<Longrightarrow> cmp b c \<le> 0 \<Longrightarrow> cmp a c \<le> 0"
    and cls: "\<And>a b. K a \<Longrightarrow> K b \<Longrightarrow> cmp a b = 0"
    and "successively (\<lambda>a b. cmp a b \<le> 0) run"
    and "set run \<subseteq> S" and "set rest \<subseteq> S"
  shows "filter K (binaryInsertionSort cmp run rest) = filter K run @ filter K rest"
  using assms(4-6)
proof (induction rest arbitrary: run)
  case Nil
  then show ?case by (simp add: binaryInsertionSort_def)
next
  case (Cons x rest)
  have sorted: "sorted_wrt (\<lambda>a b. cmp a b \<le> 0) run"
    using trans Cons.prems(2,1) by (rule successively_sorted_wrt_on [where S = S])
  have x: "x \<in> S" and rest: "set rest \<subseteq> S" using Cons.prems(3) by auto
  have step: "filter K (binary_insert cmp run x) = filter K run @ filter K [x]"
    using anti trans cls sorted Cons.prems(2) x by (rule filter_binary_insert [where S = S])
  have succ: "successively (\<lambda>a b. cmp a b \<le> 0) (binary_insert cmp run x)"
    using Cons.prems(1) by (intro successively_binary_insert) (simp_all add: anti)
  have sub: "set (binary_insert cmp run x) \<subseteq> S"
    using Cons.prems(2) x by (simp add: set_binary_insert)
  have "filter K (binaryInsertionSort cmp (binary_insert cmp run x) rest)
          = filter K (binary_insert cmp run x) @ filter K rest"
    using succ sub rest by (rule Cons.IH)
  with step show ?case by (simp add: binaryInsertionSort_def)
qed

lemma filter_rev_descending:
  fixes cmp :: "'a \<Rightarrow> 'a \<Rightarrow> int"
  assumes cls: "\<And>a b. K a \<Longrightarrow> K b \<Longrightarrow> cmp a b = 0"
    and "sorted_wrt (\<lambda>p c. cmp c p < 0) r"
  shows "filter K (rev r) = filter K r"
  using assms(2)
proof (induction r)
  case Nil
  then show ?case by simp
next
  case (Cons x r)
  then have IH: "filter K (rev r) = filter K r" by simp
  show ?case
  proof (cases "K x")
    case True
    have "\<not> K y" if "y \<in> set r" for y
    proof
      assume "K y"
      then have "cmp y x = 0" using True by (rule cls)
      moreover have "cmp y x < 0" using Cons.prems that by auto
      ultimately show False by simp
    qed
    then have "filter K r = []" by (simp add: filter_empty_conv)
    with True IH show ?thesis by simp
  next
    case False
    with IH show ?thesis by simp
  qed
qed

lemma filter_array_sort:
  fixes cmp :: "'a \<Rightarrow> 'a \<Rightarrow> int"
  assumes anti: "\<And>a b. cmp a b \<le> 0 \<longleftrightarrow> \<not> cmp b a < 0"
    and trans: "\<And>a b c. a \<in> set xs \<Longrightarrow> b \<in> set xs \<Longrightarrow> c \<in> set xs \<Longrightarrow>
                  cmp a b \<le> 0 \<Longrightarrow> cmp b c \<le> 0 \<Longrightarrow> cmp a c \<le> 0"
    and cls: "\<And>a b. K a \<Longrightarrow> K b \<Longrightarrow> cmp a b = 0"
  shows "filter K (array_sort cmp xs) = filter K xs"
proof -
  obtain run rest where r: "countAndMakeRun cmp xs = (run, rest)"
    by (cases "countAndMakeRun cmp xs") auto
  have anti1: "cmp a b \<le> 0" if "\<not> cmp b a < 0" for a b
    using anti [of a b] that by blast
  have succ: "successively (\<lambda>a b. cmp a b \<le> 0) run"
    using anti1 r by (rule countAndMakeRun_successively)
  have shape: "set run \<subseteq> set xs \<and> set rest \<subseteq> set xs \<and> filter K run @ filter K rest = filter K xs"
    using countAndMakeRun_shape [OF r]
  proof
    assume "run @ rest = xs"
    then have "set run \<subseteq> set xs" "set rest \<subseteq> set xs" "filter K run @ filter K rest = filter K xs"
      by (auto simp flip: filter_append)
    then show ?thesis by blast
  next
    assume "\<exists>r0. run = rev r0 \<and> r0 @ rest = xs \<and> successively (\<lambda>p c. cmp c p < 0) r0"
    then obtain r0 where r0: "run = rev r0" "r0 @ rest = xs" "successively (\<lambda>p c. cmp c p < 0) r0"
      by blast
    have sub: "set r0 \<subseteq> set xs" "set rest \<subseteq> set xs" using r0(2) by auto
    have strict: "cmp c a < 0"
      if "a \<in> set xs" "b \<in> set xs" "c \<in> set xs" "cmp b a < 0" "cmp c b < 0" for a b c
    proof (rule ccontr)
      assume "\<not> cmp c a < 0"
      then have "cmp a c \<le> 0" by (rule anti1)
      moreover from that(5) have "cmp c b \<le> 0" by simp
      ultimately have "cmp a b \<le> 0" using trans [of a c b] that(1-3) by blast
      then have "\<not> cmp b a < 0" using anti [of a b] by blast
      with that(4) show False by simp
    qed
    have "sorted_wrt (\<lambda>p c. cmp c p < 0) r0"
    proof (rule successively_sorted_wrt_on [where S = "set xs"])
      show "set r0 \<subseteq> set xs" by (rule sub)
      show "successively (\<lambda>p c. cmp c p < 0) r0" by (rule r0)
      show "cmp c a < 0" if "a \<in> set xs" "b \<in> set xs" "c \<in> set xs" "cmp b a < 0" "cmp c b < 0" for a b c
        using that by (rule strict)
    qed
    with cls have "filter K (rev r0) = filter K r0"
      by (rule filter_rev_descending)
    then have "filter K run @ filter K rest = filter K xs"
      using r0(1,2) by (simp flip: filter_append)
    moreover have "set run \<subseteq> set xs" using r0(1) sub(1) by simp
    ultimately show ?thesis using sub(2) by blast
  qed
  have "filter K (binaryInsertionSort cmp run rest) = filter K run @ filter K rest"
  proof (rule filter_binaryInsertionSort [where S = "set xs"])
    show "cmp a b \<le> 0 \<longleftrightarrow> \<not> cmp b a < 0" for a b by (rule anti)
    show "cmp a c \<le> 0" if "a \<in> set xs" "b \<in> set xs" "c \<in> set xs" "cmp a b \<le> 0" "cmp b c \<le> 0" for a b c
      using that by (rule trans)
    show "cmp a b = 0" if "K a" "K b" for a b using that by (rule cls)
    show "successively (\<lambda>a b. cmp a b \<le> 0) run" by (rule succ)
    show "set run \<subseteq> set xs" "set rest \<subseteq> set xs" using shape by blast+
  qed
  with shape show ?thesis by (simp add: array_sort_def r)
qed


text \<open>The comparison function of the listing.\<close>

lemma num_lt_asym: "num_lt a b \<Longrightarrow> \<not> num_lt b a"
  by (cases a; cases b) auto

lemma num_lt_irrefl: "\<not> num_lt a a"
  by (cases a) auto

lemma js_lt_asym: "js_lt a b \<Longrightarrow> \<not> js_lt b a"
  by (cases "to_primitive a"; cases "to_primitive b") (auto dest: num_lt_asym)

lemma js_lt_same: "to_primitive a = to_primitive b \<Longrightarrow> \<not> js_lt a b"
  by (cases "to_primitive b") (auto simp: num_lt_irrefl)

lemma compare_chars_anti:
  "compare_chars f ord a b \<le> 0 \<longleftrightarrow> \<not> compare_chars f ord b a < 0"
  using js_lt_asym [of "sort_val f a" "sort_val f b"] js_lt_asym [of "sort_val f b" "sort_val f a"]
  by (auto simp: compare_chars_def js_gt_def Let_def split: if_splits)

lemma compare_chars_same:
  "to_primitive (sort_val f a) = to_primitive (sort_val f b) \<Longrightarrow> compare_chars f ord a b = 0"
  using js_lt_same [of "sort_val f a" "sort_val f b"] js_lt_same [of "sort_val f b" "sort_val f a"]
  by (simp add: compare_chars_def js_gt_def Let_def)

text \<open>The values compared for two characters are of one kind: both are the same field.\<close>

lemma sort_val_kinds:
  "(\<exists>x y. to_primitive (sort_val f a) = PString x \<and> to_primitive (sort_val f b) = PString y)
   \<or> (\<exists>x y. to_primitive (sort_val f a) = PNumber x \<and> to_primitive (sort_val f b) = PNumber y)
   \<or> (\<exists>x y. to_primitive (sort_val f a) = PBoolean x \<and> to_primitive (sort_val f b) = PBoolean y)
   \<or> (to_primitive (sort_val f a) = PUndefined \<and> to_primitive (sort_val f b) = PUndefined)"
  by (simp add: sort_val_def get_field_def)

lemma js_not_lt_trans:
  assumes "to_primitive (sort_val f a) \<noteq> PNumber NaN"
    and "to_primitive (sort_val f b) \<noteq> PNumber NaN"
    and "to_primitive (sort_val f c) \<noteq> PNumber NaN"
    and "\<not> js_lt (sort_val f b) (sort_val f a)" and "\<not> js_lt (sort_val f c) (sort_val f b)"
  shows "\<not> js_lt (sort_val f c) (sort_val f a)"
proof -
  have num: "\<not> num_lt z x" if "x \<noteq> NaN" "y \<noteq> NaN" "z \<noteq> NaN" "\<not> num_lt y x" "\<not> num_lt z y" for x y z
    using that by (cases x; cases y; cases z) auto
  from sort_val_kinds [of f a b] sort_val_kinds [of f b c] assms show ?thesis
    by (auto dest: num)
qed

lemma compare_chars_trans:
  assumes "to_primitive (sort_val f a) \<noteq> PNumber NaN"
    and "to_primitive (sort_val f b) \<noteq> PNumber NaN"
    and "to_primitive (sort_val f c) \<noteq> PNumber NaN"
    and ab: "compare_chars f ord a b \<le> 0" and bc: "compare_chars f ord b c \<le> 0"
  shows "compare_chars f ord a c \<le> 0"
proof -
  have le: "compare_chars f ord x y \<le> 0 \<longleftrightarrow>
      (if ord > 0 then \<not> js_lt (sort_val f y) (sort_val f x)
       else if ord < 0 then \<not> js_lt (sort_val f x) (sort_val f y) else True)" for x y
    using js_lt_asym [of "sort_val f x" "sort_val f y"]
    by (auto simp: compare_chars_def js_gt_def Let_def)
  show ?thesis
  proof (cases "ord > 0")
    case True
    with ab bc have "\<not> js_lt (sort_val f b) (sort_val f a)" "\<not> js_lt (sort_val f c) (sort_val f b)"
      by (simp_all add: le)
    with assms(1-3) have "\<not> js_lt (sort_val f c) (sort_val f a)" by (rule js_not_lt_trans)
    with True show ?thesis by (simp add: le)
  next
    case False
    show ?thesis
    proof (cases "ord < 0")
      case True
      with ab bc have "\<not> js_lt (sort_val f b) (sort_val f c)" "\<not> js_lt (sort_val f a) (sort_val f b)"
        by (simp_all add: le)
      with assms(3,2,1) have "\<not> js_lt (sort_val f a) (sort_val f c)" by (rule js_not_lt_trans)
      with True show ?thesis by (simp add: le)
    next
      case False
      with \<open>\<not> ord > 0\<close> have "ord = 0" by simp
      then show ?thesis by (simp add: compare_chars_def Let_def)
    qed
  qed
qed

text \<open>
  Claim C3, as amended. For every sequence of characters, every sort field and every
  direction, a sequence that is already in order is returned as it is. Sorting the
  sorted sequence again returns it unchanged when the sequence has fewer than 64
  characters or no compared value is \<open>NaN\<close>. When no compared value is \<open>NaN\<close>, the
  characters whose compared values are equal keep their order (the sort is stable).
\<close>

theorem sort_step_consistent:
  "(sorted_wrt (\<lambda>a b. compare_chars f ord a b \<le> 0) cs \<longrightarrow> sort_step f ord cs = cs)
   \<and> (length cs < 64 \<or> (\<forall>c \<in> set cs. to_primitive (sort_val f c) \<noteq> PNumber NaN) \<longrightarrow>
        sort_step f ord (sort_step f ord cs) = sort_step f ord cs)
   \<and> ((\<forall>c \<in> set cs. to_primitive (sort_val f c) \<noteq> PNumber NaN) \<longrightarrow>
        (\<forall>v. filter (\<lambda>c. to_primitive (sort_val f c) = v) (sort_step f ord cs)
             = filter (\<lambda>c. to_primitive (sort_val f c) = v) cs))"
proof -
  have anti1: "compare_chars f ord a b \<le> 0" if "\<not> compare_chars f ord b a < 0" for a b
    using that compare_chars_anti [of f ord a b] by blast
  have anti2: "\<not> compare_chars f ord b a < 0" if "compare_chars f ord a b \<le> 0" for a b
    using that compare_chars_anti [of f ord a b] by blast
  have "successively (\<lambda>a b. compare_chars f ord a b \<le> 0) (sort_step f ord cs)"
    unfolding sort_step_def using anti1 by (rule successively_array_sort)
  with anti2 have idem: "sort_step f ord (sort_step f ord cs) = sort_step f ord cs"
    unfolding sort_step_def by (rule array_sort_fixed)
  have fixed: "sort_step f ord cs = cs" if "sorted_wrt (\<lambda>a b. compare_chars f ord a b \<le> 0) cs"
    unfolding sort_step_def using anti2 successively_if_sorted_wrt [OF that]
    by (rule array_sort_fixed)
  have stable: "filter (\<lambda>c. to_primitive (sort_val f c) = v) (sort_step f ord cs)
            = filter (\<lambda>c. to_primitive (sort_val f c) = v) cs"
    if nonan: "\<forall>c \<in> set cs. to_primitive (sort_val f c) \<noteq> PNumber NaN" for v
    unfolding sort_step_def
  proof (rule filter_array_sort)
    show "compare_chars f ord a b \<le> 0 \<longleftrightarrow> \<not> compare_chars f ord b a < 0" for a b
      by (rule compare_chars_anti)
    show "compare_chars f ord a c \<le> 0"
      if "a \<in> set cs" "b \<in> set cs" "c \<in> set cs"
        "compare_chars f ord a b \<le> 0" "compare_chars f ord b c \<le> 0" for a b c
      using nonan that by (intro compare_chars_trans [of f a b c ord]) auto
    show "compare_chars f ord a b = 0"
      if "to_primitive (sort_val f a) = v" "to_primitive (sort_val f b) = v" for a b
      using that by (intro compare_chars_same) simp
  qed
  from idem fixed stable show ?thesis by blast
qed


lemma sample_vals:
  "to_primitive (sort_val ''age'' alpha) = PNumber (Num 30)"
  "to_primitive (sort_val ''age'' beta) = PNumber (Num 41)"
  "to_primitive (sort_val ''name'' alpha) = PString (js ''Alpha'')"
  "to_primitive (sort_val ''name'' beta) = PString (js ''Beta'')"
  by (simp_all add: sort_val_def get_field_def alpha_def beta_def)

lemma sample_order:
  "compare_chars ''name'' 1 alpha beta \<le> 0" "compare_chars ''age'' (- 1) beta alpha \<le> 0"
  by (simp_all add: compare_chars_def js_gt_def sample_vals js_units Let_def)

theorem sort_step_consistent_witness:
  "sort_step ''name'' 1 [alpha, beta] = [alpha, beta]
   \<and> sort_step ''age'' (- 1) [beta, alpha] = [beta, alpha]
   \<and> sort_step ''age'' 1 (sort_step ''age'' 1 nan_roster) = sort_step ''age'' 1 nan_roster
   \<and> filter (\<lambda>c. to_primitive (sort_val ''age'' c) = PNumber (Num 30)) (sort_step ''age'' 1 [beta, alpha])
       = [alpha]"
proof -
  have up: "sorted_wrt (\<lambda>a b. compare_chars ''name'' 1 a b \<le> 0) [alpha, beta]"
    by (simp add: sample_order)
  have down: "sorted_wrt (\<lambda>a b. compare_chars ''age'' (- 1) a b \<le> 0) [beta, alpha]"
    by (simp add: sample_order)
  have short: "length nan_roster < 64" by (simp add: nan_roster_def)
  have nonan: "\<forall>c \<in> set [beta, alpha]. to_primitive (sort_val ''age'' c) \<noteq> PNumber NaN"
    by (simp add: sample_vals)
  from up sort_step_consistent [of "''name''" 1 "[alpha, beta]"]
  have 1: "sort_step ''name'' 1 [alpha, beta] = [alpha, beta]" by blast
  from down sort_step_consistent [of "''age''" "- 1" "[beta, alpha]"]
  have 2: "sort_step ''age'' (- 1) [beta, alpha] = [beta, alpha]" by blast
  from short sort_step_consistent [of "''age''" 1 nan_roster]
  have 3: "sort_step ''age'' 1 (sort_step ''age'' 1 nan_roster) = sort_step ''age'' 1 nan_roster"
    by blast
  from nonan sort_step_consistent [of "''age''" 1 "[beta, alpha]"]
  have "filter (\<lambda>c. to_primitive (sort_val ''age'' c) = PNumber (Num 30)) (sort_step ''age'' 1 [beta, alpha])
          = filter (\<lambda>c. to_primitive (sort_val ''age'' c) = PNumber (Num 30)) [beta, alpha]"
    by blast
  then have 4: "filter (\<lambda>c. to_primitive (sort_val ''age'' c) = PNumber (Num 30))
                  (sort_step ''age'' 1 [beta, alpha]) = [alpha]"
    by (simp add: sample_vals)
  from 1 2 3 4 show ?thesis by blast
qed

text \<open>
  The claim as it was stated, for every sequence, fails when an age is \<open>NaN\<close>: of the
  seven characters with the ages 1, 2, 7, \<open>NaN\<close>, 3, 0, 3, sorted by age, the two of age 3
  come back in the other order.
\<close>

theorem sort_step_nan_counterexample:
  "map char_id (of_age (Num 3) nan_roster) = [''e'', ''g'']
   \<and> map char_id (of_age (Num 3) (sort_step ''age'' 1 nan_roster)) = [''g'', ''e'']
   \<and> map char_id (sort_step ''age'' 1 nan_roster) = [''f'', ''a'', ''b'', ''g'', ''c'', ''d'', ''e'']"
  by code_simp

section \<open>The listing request\<close>

lemma listing_two:
  assumes "name A = js ''Alpha''" and "name B = js ''Beta''"
  shows "sort_step ''name'' 1 (filter_step (js ''a'') [A, B]) = [A, B]"
    and "sort_step ''name'' 1 (filter_step (js ''a'') [B, A]) = [A, B]"
  using assms
  by (simp_all add: filter_step_def toLowerCase_def js_units lower_unit_def is_capital_def
        is_cased_def is_small_def sort_step_def array_sort_def binaryInsertionSort_def
        compare_chars_def sort_val_def get_field_def js_gt_def)

text \<open>
  Claim C1, as amended. For a collection of exactly two characters, \<open>A\<close> named
  \<open>Alpha\<close> and \<open>B\<close> named \<open>Beta\<close>, in either order, the listing request of a logged-in
  session with search \<open>a\<close>, sort \<open>name\<close> and order \<open>asc\<close> shows the sequence \<open>[A, B]\<close>:
  both names contain the letter ignoring case, and \<open>Alpha\<close> sorts before \<open>Beta\<close>.
\<close>

theorem listing_alpha_beta:
  assumes "session_user s = Some u"
    and "name A = js ''Alpha''" and "name B = js ''Beta''"
    and "characters d = [A, B] \<or> characters d = [B, A]"
  shows "get_characters s True d \<lparr>q_search = Some (js ''a''), q_sort = Some ''name'', q_order = Some ''asc''\<rparr>
           = Render 200 (IndexView [A, B] (js ''a'') ''name'' 1)"
  using assms(1,4) listing_two [OF assms(2,3)]
  by (auto simp: get_characters_def requireLogin_def characters_handler_def or_default_def)

theorem listing_alpha_beta_witness:
  "get_characters user_session True sample_db
       \<lparr>q_search = Some (js ''a''), q_sort = Some ''name'', q_order = Some ''asc''\<rparr>
     = Render 200 (IndexView [alpha, beta] (js ''a'') ''name'' 1)"
proof -
  have s: "session_user user_session = Some \<lparr>su_id = ''aa'', su_username = ''user'', su_role = USER\<rparr>"
    by (simp add: user_session_def)
  have a: "name alpha = js ''Alpha''" and b: "name beta = js ''Beta''"
    by (simp_all add: alpha_def beta_def)
  have c: "characters sample_db = [alpha, beta] \<or> characters sample_db = [beta, alpha]"
    by (simp add: sample_db_def)
  from listing_alpha_beta [OF s a b c] show ?thesis .
qed

text \<open>
  The claim as it was stated, with \<open>Beta\<close> left out of the result, fails on the sample
  collection.
\<close>

theorem listing_alpha_only_counterexample:
  "get_characters user_session True sample_db
       \<lparr>q_search = Some (js ''a''), q_sort = Some ''name'', q_order = Some ''asc''\<rparr>
     \<noteq> Render 200 (IndexView [alpha] (js ''a'') ''name'' 1)"
proof -
  have "sort_step ''name'' 1 (filter_step (js ''a'') [alpha, beta]) = [alpha, beta]"
    by (rule listing_two) (simp_all add: alpha_def beta_def)
  then show ?thesis
    by (simp add: get_characters_def requireLogin_def user_session_def characters_handler_def
          or_default_def sample_db_def Let_def)
qed

end
